theory Spec2Isabelle
  imports Main "HOL-Library.Word" "HOL-Library.Sublist" "HOL-Library.Multiset"
    "HOL-Library.Char_ord" "HOL-Library.List_Lexorder"
begin

section \<open>Errors\<close>

text \<open>
  Every Go \<open>error\<close> return of the launcher is a value of this type. An error handed
  back by a collaborator outside the launcher (the subordinate-id registry, the binary
  lookup, the file system, the external runtime) is opaque; \<open>fmt.Errorf("...: %w", err)\<close>
  is \<open>Wrapped\<close> with the context string.
\<close>

datatype error =
    External string
  | RangeTooSmall "32 word"
  | DeviceNotFound string
  | Wrapped string error

section \<open>ID mapper: \<open>getReverseUserMaps\<close>\<close>

type_synonym u32 = "32 word"

text \<open>\<open>specs.LinuxIDMapping\<close>: three \<open>uint32\<close> fields.\<close>

record LinuxIDMapping =
  ContainerID :: u32
  HostID :: u32
  Size :: u32

text \<open>
  The \<open>fakeroot\<close> package is outside the launcher: its lookup function and its two
  file-name constants are parameters of the model.
\<close>

record fakeroot =
  GetIDRange :: "string \<Rightarrow> u32 \<Rightarrow> error + LinuxIDMapping"
  SubUIDFile :: string
  SubGIDFile :: string

text \<open>
  \<open>uid\<close> and \<open>gid\<close> are \<open>uint32(os.Getuid())\<close> and \<open>uint32(os.Getgid())\<close>. Both
  lookups are made with \<open>uid\<close>, as in the source. All arithmetic is on \<open>uint32\<close>.
\<close>

definition getReverseUserMaps ::
  "fakeroot \<Rightarrow> u32 \<Rightarrow> u32 \<Rightarrow> error + (LinuxIDMapping list \<times> LinuxIDMapping list)" where
  "getReverseUserMaps fr uid gid =
    (case GetIDRange fr (SubUIDFile fr) uid of
       Inl err \<Rightarrow> Inl err
     | Inr subuidRange \<Rightarrow>
       if Size subuidRange < 65536 then Inl (RangeTooSmall (Size subuidRange))
       else
        (case GetIDRange fr (SubGIDFile fr) uid of
           Inl err \<Rightarrow> Inl err
         | Inr subgidRange \<Rightarrow>
           if Size subgidRange < 65536 then Inl (RangeTooSmall (Size subgidRange))
           else
             let uidMap =
                   (if uid < Size subuidRange then
                      [\<lparr>ContainerID = 0, HostID = 1, Size = uid\<rparr>,
                       \<lparr>ContainerID = uid, HostID = 0, Size = 1\<rparr>,
                       \<lparr>ContainerID = uid + 1, HostID = uid + 1,
                        Size = Size subuidRange - uid\<rparr>]
                    else
                      [\<lparr>ContainerID = 0, HostID = 1, Size = Size subuidRange\<rparr>,
                       \<lparr>ContainerID = uid, HostID = 0, Size = 1\<rparr>]);
                 gidMap =
                   (if gid < Size subgidRange then
                      [\<lparr>ContainerID = 0, HostID = 1, Size = gid\<rparr>,
                       \<lparr>ContainerID = gid, HostID = 0, Size = 1\<rparr>,
                       \<lparr>ContainerID = gid + 1, HostID = gid + 1,
                        Size = Size subgidRange - gid\<rparr>]
                    else
                      [\<lparr>ContainerID = 0, HostID = 1, Size = Size subgidRange\<rparr>,
                       \<lparr>ContainerID = gid, HostID = 0, Size = 1\<rparr>])
             in Inr (uidMap, gidMap)))"

subsection \<open>Reading a mapping\<close>

text \<open>
  The container-side ids of one range, as natural numbers (the end of a range may be
  \<open>2 ^ 32\<close>, which no \<open>uint32\<close> holds).
\<close>

definition containerRange :: "LinuxIDMapping \<Rightarrow> nat set" where
  "containerRange m = {unat (ContainerID m) ..< unat (ContainerID m) + unat (Size m)}"

definition hostRange :: "LinuxIDMapping \<Rightarrow> nat set" where
  "hostRange m = {unat (HostID m) ..< unat (HostID m) + unat (Size m)}"

definition covered :: "LinuxIDMapping list \<Rightarrow> nat set" where
  "covered ms = (\<Union>m \<in> set ms. containerRange m)"

fun disjointRanges :: "LinuxIDMapping list \<Rightarrow> bool" where
  "disjointRanges [] = True"
| "disjointRanges (m # ms) =
     ((\<forall>m' \<in> set ms. containerRange m \<inter> containerRange m' = {}) \<and> disjointRanges ms)"

text \<open>Decoding a container id: the first range that holds it gives the host id.\<close>

fun toHost :: "LinuxIDMapping list \<Rightarrow> nat \<Rightarrow> nat option" where
  "toHost [] c = None"
| "toHost (m # ms) c =
     (if c \<in> containerRange m then Some (unat (HostID m) + (c - unat (ContainerID m)))
      else toHost ms c)"

text \<open>A mapping read as the list of its (container range, host range) pairs.\<close>

definition asIntervals :: "LinuxIDMapping list \<Rightarrow> (nat set \<times> nat set) list" where
  "asIntervals ms = map (\<lambda>m. (containerRange m, hostRange m)) ms"

text \<open>
  A registry that grants every user the same two sizes; used for concrete inputs.
\<close>

definition registry :: "u32 \<Rightarrow> u32 \<Rightarrow> fakeroot" where
  "registry usize gsize =
     \<lparr>GetIDRange = (\<lambda>f u. if f = ''/etc/subuid''
                            then Inr \<lparr>ContainerID = 1, HostID = 100000, Size = usize\<rparr>
                            else Inr \<lparr>ContainerID = 1, HostID = 100000, Size = gsize\<rparr>),
      SubUIDFile = ''/etc/subuid'',
      SubGIDFile = ''/etc/subgid''\<rparr>"

section \<open>Process spec builder\<close>

subsection \<open>The Go string functions the builder calls\<close>

text \<open>
  \<open>strings.SplitN(s, "=", 2)\<close>: \<open>None\<close> stands for a result of length 1 (no separator
  in \<open>s\<close>), \<open>Some (k, v)\<close> for the two parts around the first separator.
\<close>

definition splitN2 :: "string \<Rightarrow> (string \<times> string) option" where
  "splitN2 s =
     (if CHR ''='' \<in> set s
      then Some (takeWhile (\<lambda>c. c \<noteq> CHR ''='') s, tl (dropWhile (\<lambda>c. c \<noteq> CHR ''='') s))
      else None)"

text \<open>\<open>strings.Contains(s, substr)\<close>.\<close>

fun strContains :: "string \<Rightarrow> string \<Rightarrow> bool" where
  "strContains [] sub = (sub = [])"
| "strContains (c # s) sub = (prefix sub (c # s) \<or> strContains s sub)"

text \<open>\<open>strings.TrimPrefix(s, p)\<close> and \<open>strings.HasPrefix(s, p)\<close>.\<close>

definition TrimPrefix :: "string \<Rightarrow> string \<Rightarrow> string" where
  "TrimPrefix s p = (if prefix p s then drop (length p) s else s)"

definition HasPrefix :: "string \<Rightarrow> string \<Rightarrow> bool" where
  "HasPrefix s p = prefix p s"

text \<open>The number of positions of \<open>s\<close> at which \<open>sub\<close> occurs.\<close>

fun occurrences :: "string \<Rightarrow> string \<Rightarrow> nat" where
  "occurrences [] sub = (if sub = [] then 1 else 0)"
| "occurrences (c # s) sub = (if prefix sub (c # s) then 1 else 0) + occurrences s sub"

subsection \<open>Image metadata and the process\<close>

text \<open>The fields of \<open>imgspecv1.Image.Config\<close> that the builder reads.\<close>

record Image =
  Config_Entrypoint :: "string list"
  Config_Cmd :: "string list"
  Config_Env :: "string list"

record User =
  UID :: u32
  GID :: u32

record Process =
  Args :: "string list"
  Cwd :: string
  Env :: "string list"
  User :: User
  Terminal :: bool

definition getProcessArgs :: "Image \<Rightarrow> string \<Rightarrow> string list \<Rightarrow> string list" where
  "getProcessArgs imageSpec process args =
     (let processArgs = (if process \<noteq> '''' then [process] else Config_Entrypoint imageSpec)
      in if length args > 0 then processArgs @ args
         else if process = '''' then processArgs @ Config_Cmd imageSpec
         else processArgs)"

subsection \<open>The environment list\<close>

definition apptainerLibs :: string where
  "apptainerLibs = ''/.singularity.d/libs''"

text \<open>The name of an environment entry: the text before its first \<open>=\<close>.\<close>

definition envKey :: "string \<Rightarrow> string" where
  "envKey e = takeWhile (\<lambda>c. c \<noteq> CHR ''='') e"

text \<open>
  Modelled from the spec: \<open>SetProcessEnv\<close> of the launcher's \<open>generate\<close> package, which
  is not among the sources. The specification asks for last-writer-wins, key for key,
  with the order of first writes kept: the entry of that name is replaced where there is
  one, and \<open>name=value\<close> is appended otherwise.
\<close>

fun SetProcessEnv :: "string \<Rightarrow> string \<Rightarrow> string list \<Rightarrow> string list" where
  "SetProcessEnv name v [] = [name @ ''='' @ v]"
| "SetProcessEnv name v (e # es) =
     (if envKey e = name then (name @ ''='' @ v) # es else e # SetProcessEnv name v es)"

text \<open>The value an environment list gives a name: that of the first entry of that name.\<close>

fun lookupEnv :: "string list \<Rightarrow> string \<Rightarrow> string option" where
  "lookupEnv [] name = None"
| "lookupEnv (e # es) name =
     (if envKey e = name then Some (drop (Suc (length name)) e) else lookupEnv es name)"

text \<open>
  The local variables of \<open>getProcessEnv\<close>, and the environment list of the generator
  \<open>g\<close>.
\<close>

record envVars =
  path :: string
  appendPath :: string
  prependPath :: string
  ldLibraryPath :: string
  genEnv :: "string list"

text \<open>One round of the loop over the image's environment.\<close>

definition imageEnvStep :: "string \<Rightarrow> envVars \<Rightarrow> envVars" where
  "imageEnvStep env s =
     (case splitN2 env of
        None \<Rightarrow> s
      | Some (k, v) \<Rightarrow>
          let s1 = (if k = ''PATH'' then s\<lparr>path := v\<rparr> else s)
          in if k = ''LD_LIBRARY_PATH'' then s1\<lparr>ldLibraryPath := v\<rparr> else s1)"

text \<open>One round of the loop over the runtime environment (the \<open>switch\<close>).\<close>

definition runtimeEnvStep :: "string \<times> string \<Rightarrow> envVars \<Rightarrow> envVars" where
  "runtimeEnvStep kv s =
     (let k = fst kv; v = snd kv
      in if k = ''PATH'' then s\<lparr>path := v\<rparr>
         else if k = ''APPEND_PATH'' then s\<lparr>appendPath := v\<rparr>
         else if k = ''PREPEND_PATH'' then s\<lparr>prependPath := v\<rparr>
         else if k = ''LD_LIBRARY_PATH'' then s\<lparr>ldLibraryPath := v\<rparr>
         else s\<lparr>genEnv := SetProcessEnv k v (genEnv s)\<rparr>)"

text \<open>The \<open>PATH\<close> computed after the two loops.\<close>

definition computedPath :: "envVars \<Rightarrow> string" where
  "computedPath s =
     (let p1 = (if appendPath s \<noteq> '''' then path s @ '':'' @ appendPath s else path s)
      in if prependPath s \<noteq> '''' then prependPath s @ '':'' @ p1 else p1)"

text \<open>The \<open>LD_LIBRARY_PATH\<close> computed from the value the loops left.\<close>

definition ensureLibs :: "string \<Rightarrow> string" where
  "ensureLibs ld =
     (if \<not> strContains ld apptainerLibs
      then TrimPrefix (ld @ '':'' @ apptainerLibs) '':''
      else ld)"

text \<open>
  \<open>runtimeEnv\<close> is a Go map; the loop visits each key once, in an order the Go runtime
  chooses. The model takes the entries in the order visited.
\<close>

definition afterLoops :: "string list \<Rightarrow> (string \<times> string) list \<Rightarrow> envVars" where
  "afterLoops imageEnv runtimeEnv =
     fold runtimeEnvStep runtimeEnv
       (fold imageEnvStep imageEnv
          \<lparr>path = '''', appendPath = '''', prependPath = '''', ldLibraryPath = '''',
           genEnv = imageEnv\<rparr>)"

definition getProcessEnv :: "Image \<Rightarrow> (string \<times> string) list \<Rightarrow> string list" where
  "getProcessEnv imageSpec runtimeEnv =
     (let s = afterLoops (Config_Env imageSpec) runtimeEnv;
          p = computedPath s;
          env1 = (if p \<noteq> '''' then SetProcessEnv ''PATH'' p (genEnv s) else genEnv s)
      in SetProcessEnv ''LD_LIBRARY_PATH'' (ensureLibs (ldLibraryPath s)) env1)"

text \<open>
  The final \<open>PATH\<close> as the specification words it: the three segments joined by
  \<open>:\<close>, each empty segment left out together with its separator.
\<close>

definition specPath :: "string \<Rightarrow> string \<Rightarrow> string \<Rightarrow> string" where
  "specPath prependP baseP appendP =
     (case filter (\<lambda>seg. seg \<noteq> '''') [prependP, baseP, appendP] of
        [] \<Rightarrow> ''''
      | seg # segs \<Rightarrow> seg @ concat (map (\<lambda>x. '':'' @ x) segs))"

subsection \<open>\<open>getProcess\<close> and the sources of the runtime environment\<close>

text \<open>
  What \<open>getProcess\<close> reads from outside the launcher: the two prefix constants of the
  \<open>env\<close> package, \<open>os.Environ\<close>, \<open>os.ReadFile\<close>, the shell evaluation of an
  environment file, the home directory of \<open>user.CurrentOriginal\<close>, the ids (already
  converted to \<open>uint32\<close>), whether standard input is a terminal, and the order in which
  the Go runtime visits the keys of a map.
\<close>

record host =
  ApptainerPrefix :: string
  ApptainerEnvPrefix :: string
  Environ :: "string list"
  ReadFile :: "string \<Rightarrow> error + string"
  EvaluateEnv :: "string \<Rightarrow> error + string list"
  CurrentOriginal :: "error + string"
  Getuid :: u32
  Getgid :: u32
  IsTerminal :: bool
  mapRange :: "(string \<rightharpoonup> string) \<Rightarrow> (string \<times> string) list"

text \<open>The fields of \<open>l.cfg\<close> that \<open>getProcess\<close> reads.\<close>

record Options =
  cfg_EnvFile :: string
  cfg_Env :: "string \<rightharpoonup> string"
  cfg_Fakeroot :: bool

definition defaultEnv :: "host \<Rightarrow> string \<Rightarrow> string \<Rightarrow> (string \<rightharpoonup> string)" where
  "defaultEnv h imageRef bundle =
     [ApptainerPrefix h @ ''CONTAINER'' \<mapsto> bundle, ApptainerPrefix h @ ''NAME'' \<mapsto> imageRef]"

text \<open>
  Modelled from the spec: \<open>mergeMap\<close>, which is not among the sources. Later sources
  overwrite earlier ones key for key.
\<close>

definition mergeMap :: "(string \<rightharpoonup> string) \<Rightarrow> (string \<rightharpoonup> string) \<Rightarrow> (string \<rightharpoonup> string)" where
  "mergeMap a b = a ++ b"

definition apptainerEnvStep :: "string \<Rightarrow> string \<Rightarrow> (string \<rightharpoonup> string) \<Rightarrow> (string \<rightharpoonup> string)" where
  "apptainerEnvStep pfx envVar m =
     (if \<not> HasPrefix envVar pfx then m
      else case splitN2 envVar of
             None \<Rightarrow> m
           | Some (k, v) \<Rightarrow> m(TrimPrefix k pfx \<mapsto> v))"

definition apptainerEnvMap :: "host \<Rightarrow> (string \<rightharpoonup> string)" where
  "apptainerEnvMap h = fold (apptainerEnvStep (ApptainerEnvPrefix h)) (Environ h) Map.empty"

definition envFileStep :: "string \<Rightarrow> (string \<rightharpoonup> string) \<Rightarrow> (string \<rightharpoonup> string)" where
  "envFileStep envVar m =
     (case splitN2 envVar of
        None \<Rightarrow> m
      | Some (k, v) \<Rightarrow>
          if k = ''GID'' \<or> k = ''HOME'' \<or> k = ''IFS'' \<or> k = ''OPTIND'' \<or> k = ''PWD'' \<or> k = ''UID''
          then m
          else m(k \<mapsto> v))"

definition envFileMap :: "host \<Rightarrow> string \<Rightarrow> error + (string \<rightharpoonup> string)" where
  "envFileMap h f =
     (case ReadFile h f of
        Inl err \<Rightarrow> Inl (Wrapped ''could not read environment file'' err)
      | Inr content \<Rightarrow>
          (case EvaluateEnv h content of
             Inl err \<Rightarrow> Inl (Wrapped ''while processing'' err)
           | Inr env \<Rightarrow> Inr (fold envFileStep env Map.empty)))"

definition getProcessTerminal :: "host \<Rightarrow> bool" where
  "getProcessTerminal h = (if IsTerminal h then True else False)"

definition getProcessUser :: "host \<Rightarrow> Options \<Rightarrow> User" where
  "getProcessUser h cfg =
     (if cfg_Fakeroot cfg then \<lparr>UID = 0, GID = 0\<rparr> else \<lparr>UID = Getuid h, GID = Getgid h\<rparr>)"

definition getProcessCwd :: "host \<Rightarrow> Options \<Rightarrow> error + string" where
  "getProcessCwd h cfg =
     (if cfg_Fakeroot cfg then Inr ''/root''
      else case CurrentOriginal h of Inl err \<Rightarrow> Inl err | Inr dir \<Rightarrow> Inr dir)"

text \<open>
  The first part of \<open>getProcess\<close>: the runtime environment \<open>rtEnv\<close>, or the error of
  the environment file.
\<close>

definition runtimeEnvironment ::
  "host \<Rightarrow> Options \<Rightarrow> string \<Rightarrow> string \<Rightarrow> error + (string \<rightharpoonup> string)" where
  "runtimeEnvironment h cfg imageRef bundle =
     (let rtEnv = mergeMap (defaultEnv h imageRef bundle) (apptainerEnvMap h)
      in if cfg_EnvFile cfg \<noteq> ''''
         then (case envFileMap h (cfg_EnvFile cfg) of
                 Inl err \<Rightarrow> Inl err
               | Inr e \<Rightarrow> Inr (mergeMap (mergeMap rtEnv e) (cfg_Env cfg)))
         else Inr (mergeMap rtEnv (cfg_Env cfg)))"

definition getProcess ::
  "host \<Rightarrow> Options \<Rightarrow> Image \<Rightarrow> string \<Rightarrow> string \<Rightarrow> string \<Rightarrow> string list \<Rightarrow> error + Process" where
  "getProcess h cfg imgSpec imageRef bundle process args =
     (case runtimeEnvironment h cfg imageRef bundle of
        Inl err \<Rightarrow> Inl err
      | Inr rtEnv \<Rightarrow>
          (case getProcessCwd h cfg of
             Inl err \<Rightarrow> Inl err
           | Inr cwd \<Rightarrow>
               Inr \<lparr>Args = getProcessArgs imgSpec process args,
                    Cwd = cwd,
                    Env = getProcessEnv imgSpec (mapRange h rtEnv),
                    User = getProcessUser h cfg,
                    Terminal = getProcessTerminal h\<rparr>))"

subsection \<open>Reading the result\<close>

text \<open>
  The value the image's environment assigns to a name: that of its last entry of the
  form \<open>name=value\<close>, and the empty string when it has none.
\<close>

definition assignments :: "string list \<Rightarrow> (string \<times> string) list" where
  "assignments env = List.map_filter splitN2 env"

definition lastAssigned :: "string \<Rightarrow> string list \<Rightarrow> string" where
  "lastAssigned name env =
     (case map_of (rev (assignments env)) name of None \<Rightarrow> '''' | Some v \<Rightarrow> v)"

text \<open>The value a runtime environment gives a name, the empty string when it has none.\<close>

definition runtimeValue :: "(string \<times> string) list \<Rightarrow> string \<Rightarrow> string" where
  "runtimeValue runtimeEnv name = (case map_of runtimeEnv name of None \<Rightarrow> '''' | Some v \<Rightarrow> v)"

text \<open>The keys that the \<open>switch\<close> of the runtime loop keeps out of the environment list.\<close>

definition special :: "string \<Rightarrow> bool" where
  "special k = (k = ''PATH'' \<or> k = ''APPEND_PATH'' \<or> k = ''PREPEND_PATH'' \<or> k = ''LD_LIBRARY_PATH'')"

text \<open>
  The value of a name after both loops: the runtime environment's where it has one, the
  image's last assignment otherwise (the last value seen across the sources).
\<close>

definition sourceValue :: "string \<Rightarrow> string list \<Rightarrow> (string \<times> string) list \<Rightarrow> string" where
  "sourceValue name imageEnv runtimeEnv =
     (case map_of runtimeEnv name of None \<Rightarrow> lastAssigned name imageEnv | Some v \<Rightarrow> v)"

text \<open>
  A host for examples: one prefixed variable in the calling environment, no environment
  file, and a map iteration that visits the three keys in a fixed order.
\<close>

definition sampleHost :: host where
  "sampleHost =
     \<lparr>ApptainerPrefix = ''APPTAINER_'',
      ApptainerEnvPrefix = ''APPTAINERENV_'',
      Environ = [''HOME=/home/u'', ''APPTAINERENV_FOO=1''],
      ReadFile = (\<lambda>f. Inl (External ''no such file'')),
      EvaluateEnv = (\<lambda>content. Inr []),
      CurrentOriginal = Inr ''/home/u'',
      Getuid = 1001,
      Getgid = 1001,
      IsTerminal = False,
      mapRange = (\<lambda>m. [(''FOO'', ''1''), (''APPTAINER_NAME'', ''docker://alpine''),
                        (''APPTAINER_CONTAINER'', ''/tmp/bundle'')])\<rparr>"

definition sampleOptions :: Options where
  "sampleOptions = \<lparr>cfg_EnvFile = [], cfg_Env = Map.empty, cfg_Fakeroot = False\<rparr>"

definition sampleImage :: Image where
  "sampleImage =
     \<lparr>Config_Entrypoint = [''/bin/sh''], Config_Cmd = [],
      Config_Env = [''PATH=/usr/bin'', ''APPTAINER_NAME=other'']\<rparr>"

section \<open>Runtime lifecycle driver: \<open>OciDelete\<close>\<close>

text \<open>
  \<open>OciDelete\<close> works on the world outside the process: the state of the external
  runtime, the state directory, the bundle lock. The world is a value of type \<open>'w\<close>
  that each operation takes and returns. The operations themselves are outside the
  sources and are parameters: the lookup of the \<open>runc\<close> binary, the run of a command
  (\<open>cmd.Run\<close>), \<open>stateDir\<close>, \<open>filepath.Join\<close>, \<open>filepath.EvalSymlinks\<close>,
  \<open>os.Remove\<close>, \<open>releaseBundle\<close>, and the constants \<open>RuncStateDir\<close> and
  \<open>bundleLink\<close>. The debug log lines are left out.
\<close>

record 'w driver =
  FindBin :: "string \<Rightarrow> error + string"
  RuncStateDir :: string
  Run :: "string \<Rightarrow> string list \<Rightarrow> 'w \<Rightarrow> error option \<times> 'w"
  stateDir :: "string \<Rightarrow> error + string"
  bundleLink :: string
  Join :: "string \<Rightarrow> string \<Rightarrow> string"
  EvalSymlinks :: "string \<Rightarrow> 'w \<Rightarrow> error + string"
  Remove :: "string \<Rightarrow> 'w \<Rightarrow> error option \<times> 'w"
  releaseBundle :: "string \<Rightarrow> 'w \<Rightarrow> error option \<times> 'w"

definition runcArgs :: "'w driver \<Rightarrow> string \<Rightarrow> string list" where
  "runcArgs d containerID = [''--root'', RuncStateDir d, ''delete'', containerID]"

definition OciDelete :: "'w driver \<Rightarrow> string \<Rightarrow> 'w \<Rightarrow> error option \<times> 'w" where
  "OciDelete d containerID w =
     (case FindBin d ''runc'' of
        Inl err \<Rightarrow> (Some err, w)
      | Inr runc \<Rightarrow>
          (case Run d runc (runcArgs d containerID) w of
             (Some err, w1) \<Rightarrow> (Some (Wrapped ''while calling runc delete'' err), w1)
           | (None, w1) \<Rightarrow>
               (case stateDir d containerID of
                  Inl err \<Rightarrow> (Some (Wrapped ''while computing state directory'' err), w1)
                | Inr sd \<Rightarrow>
                    let bLink = Join d sd (bundleLink d)
                    in (case EvalSymlinks d bLink w1 of
                          Inl err \<Rightarrow> (Some (Wrapped ''while finding bundle directory'' err), w1)
                        | Inr bundle \<Rightarrow>
                            (case Remove d bLink w1 of
                               (Some err, w2) \<Rightarrow>
                                 (Some (Wrapped ''while removing bundle symlink'' err), w2)
                             | (None, w2) \<Rightarrow> releaseBundle d bundle w2)))))"

text \<open>
  A concrete world for examples: the symbolic links, the bundle locks held, and the
  commands run so far. Removal and release fail on what is not there.
\<close>

record world =
  links :: "(string \<times> string) list"
  locks :: "string list"
  ran :: "(string \<times> string list) list"

definition sampleDriver :: "bool \<Rightarrow> world driver" where
  "sampleDriver runcFails =
     \<lparr>FindBin = (\<lambda>name. Inr (''/usr/bin/'' @ name)),
      RuncStateDir = ''/run/apptainer-oci'',
      Run = (\<lambda>bin as w. (if runcFails then Some (External ''exit status 1'') else None,
                          w\<lparr>ran := ran w @ [(bin, as)]\<rparr>)),
      stateDir = (\<lambda>ident. Inr (''/state/'' @ ident)),
      bundleLink = ''bundle'',
      Join = (\<lambda>a b. a @ ''/'' @ b),
      EvalSymlinks = (\<lambda>p w. case map_of (links w) p of
                               None \<Rightarrow> Inl (External ''no such file'')
                             | Some t \<Rightarrow> Inr t),
      Remove = (\<lambda>p w. if p \<in> fst ` set (links w)
                       then (None, w\<lparr>links := filter (\<lambda>l. fst l \<noteq> p) (links w)\<rparr>)
                       else (Some (External ''no such file''), w)),
      releaseBundle = (\<lambda>b w. if b \<in> set (locks w)
                              then (None, w\<lparr>locks := filter (\<lambda>l. l \<noteq> b) (locks w)\<rparr>)
                              else (Some (External ''not locked''), w))\<rparr>"

definition sampleWorld :: world where
  "sampleWorld = \<lparr>links = [(''/state/c1/bundle'', ''/bundles/c1'')], locks = [''/bundles/c1''], ran = []\<rparr>"

section \<open>CDI device injector\<close>

record Mount =
  Source :: string
  Destination :: string
  Type :: string
  Options :: "string list"

record LinuxDevice =
  Path :: string
  DevType :: string
  Major :: int
  Minor :: int
  FileMode :: "u32 option"
  DevUID :: "u32 option"
  DevGID :: "u32 option"

text \<open>What one resolved device name contributes.\<close>

record Edits =
  edDevices :: "LinuxDevice list"
  edMounts :: "Mount list"
  edEnv :: "string list"

text \<open>The parts of the bundle spec the injector writes.\<close>

record Spec =
  Devices :: "LinuxDevice list"
  Mounts :: "Mount list"
  ProcessEnv :: "string list"

text \<open>
  Modelled from the spec: \<open>addCDIDevices\<close>, of which only the test is among the
  sources. The CDI specification directories are a map from qualified device names to
  what each device contributes. Names are resolved in the order given; the first name
  that does not resolve ends the call with a device-not-found error. Devices, mounts and
  environment variables of the resolved names are concatenated onto the spec in that
  order, and the mounts of the result are sorted by destination, with no merging of
  equal destinations.
\<close>

fun resolveDevices :: "(string \<rightharpoonup> Edits) \<Rightarrow> string list \<Rightarrow> error + Edits list" where
  "resolveDevices cdi [] = Inr []"
| "resolveDevices cdi (n # ns) =
     (case cdi n of
        None \<Rightarrow> Inl (DeviceNotFound n)
      | Some e \<Rightarrow> (case resolveDevices cdi ns of Inl err \<Rightarrow> Inl err | Inr es \<Rightarrow> Inr (e # es)))"

definition addCDIDevices :: "(string \<rightharpoonup> Edits) \<Rightarrow> Spec \<Rightarrow> string list \<Rightarrow> error + Spec" where
  "addCDIDevices cdi spec cdiDevices =
     (case resolveDevices cdi cdiDevices of
        Inl err \<Rightarrow> Inl err
      | Inr es \<Rightarrow>
          Inr \<lparr>Devices = Devices spec @ concat (map edDevices es),
               Mounts = sort_key Destination (Mounts spec @ concat (map edMounts es)),
               ProcessEnv = ProcessEnv spec @ concat (map edEnv es)\<rparr>)"

text \<open>
  The CDI specification directory of the test \<open>Test_addCDIDevice\<close>, read off the
  results the test expects for its three devices.
\<close>

definition kmsgDevice :: Edits where
  "kmsgDevice =
     \<lparr>edDevices = [\<lparr>Path = ''/dev/kmsg'', DevType = ''c'', Major = 1, Minor = 11,
                    FileMode = None, DevUID = Some 1000, DevGID = Some 1000\<rparr>],
      edMounts = [\<lparr>Source = ''/tmp'', Destination = ''/tmpmountforkmsg'', Type = '''',
                   Options = [''rw'']\<rparr>],
      edEnv = [''FOO=VALID_SPEC'', ''BAR=BARVALUE1'']\<rparr>"

definition tmpmountDevice17 :: Edits where
  "tmpmountDevice17 =
     \<lparr>edDevices = [],
      edMounts = [\<lparr>Source = ''/tmp'', Destination = ''/tmpmount17'', Type = '''',
                   Options = [''r'']\<rparr>],
      edEnv = [''FOO=VALID_SPEC'', ''BAR=BARVALUE1'']\<rparr>"

definition tmpmountDevice1 :: Edits where
  "tmpmountDevice1 =
     \<lparr>edDevices = [],
      edMounts = [\<lparr>Source = ''/tmp'', Destination = ''/tmpmount3'', Type = '''',
                   Options = [''rbind'', ''nosuid'', ''nodev'']\<rparr>,
                  \<lparr>Source = ''/tmp'', Destination = ''/tmpmount13'', Type = '''',
                   Options = [''rw'']\<rparr>,
                  \<lparr>Source = ''/tmp'', Destination = ''/tmpmount1'', Type = '''',
                   Options = [''ro'']\<rparr>],
      edEnv = [''ABCD=QWERTY'', ''EFGH=ASDFGH'', ''IJKL=ZXCVBN'']\<rparr>"

definition testCDI :: "string \<rightharpoonup> Edits" where
  "testCDI =
     [''apptainertesting.sylabs.io/device=kmsgDevice'' \<mapsto> kmsgDevice,
      ''apptainertesting.sylabs.io/device=tmpmountDevice17'' \<mapsto> tmpmountDevice17,
      ''apptainertesting.sylabs.io/device=tmpmountDevice1'' \<mapsto> tmpmountDevice1]"

definition minimalSpec :: Spec where
  "minimalSpec = \<lparr>Devices = [], Mounts = [], ProcessEnv = []\<rparr>"

section \<open>Properties of the ID mapper\<close>

lemma getReverseUserMaps_ok:
  assumes "GetIDRange fr (SubUIDFile fr) uid = Inr ru"
    and "GetIDRange fr (SubGIDFile fr) uid = Inr rg"
    and "65536 \<le> Size ru" and "65536 \<le> Size rg"
  shows "getReverseUserMaps fr uid gid =
     Inr (if uid < Size ru then
            [\<lparr>ContainerID = 0, HostID = 1, Size = uid\<rparr>,
             \<lparr>ContainerID = uid, HostID = 0, Size = 1\<rparr>,
             \<lparr>ContainerID = uid + 1, HostID = uid + 1, Size = Size ru - uid\<rparr>]
          else
            [\<lparr>ContainerID = 0, HostID = 1, Size = Size ru\<rparr>,
             \<lparr>ContainerID = uid, HostID = 0, Size = 1\<rparr>],
          if gid < Size rg then
            [\<lparr>ContainerID = 0, HostID = 1, Size = gid\<rparr>,
             \<lparr>ContainerID = gid, HostID = 0, Size = 1\<rparr>,
             \<lparr>ContainerID = gid + 1, HostID = gid + 1, Size = Size rg - gid\<rparr>]
          else
            [\<lparr>ContainerID = 0, HostID = 1, Size = Size rg\<rparr>,
             \<lparr>ContainerID = gid, HostID = 0, Size = 1\<rparr>])"
  using assms by (simp add: getReverseUserMaps_def Let_def not_less[symmetric])

lemma unat_succ_below: "(x::u32) < y \<Longrightarrow> unat (x + 1) = Suc (unat x)"
proof -
  assume "x < y"
  then have "unat x < unat y" by (simp add: word_less_nat_alt)
  moreover have "unat y < 2 ^ 32" using unsigned_less[of y] by simp
  ultimately have "unat x + unat (1::u32) < 2 ^ LENGTH(32)" by simp
  then have "unat (x + 1) = unat x + unat (1::u32)" by (simp only: unat_add_lem)
  then show ?thesis by simp
qed

lemma unat_diff_below: "(x::u32) < y \<Longrightarrow> unat (y - x) = unat y - unat x"
  by (simp add: unat_sub)

lemma three_intervals:
  assumes "(x::u32) < n"
  shows "asIntervals [\<lparr>ContainerID = 0, HostID = 1, Size = x\<rparr>,
             \<lparr>ContainerID = x, HostID = 0, Size = 1\<rparr>,
             \<lparr>ContainerID = x + 1, HostID = x + 1, Size = n - x\<rparr>] =
    [({0 ..< unat x}, {1 ..< 1 + unat x}),
     ({unat x ..< unat x + 1}, {0 ..< 1}),
     ({unat x + 1 ..< unat n + 1}, {unat x + 1 ..< unat n + 1})]"
proof -
  have "unat x < unat n" using assms by (simp add: word_less_nat_alt)
  then show ?thesis
    using unat_succ_below[OF assms] unat_diff_below[OF assms]
    by (simp add: asIntervals_def containerRange_def hostRange_def)
qed

lemma two_intervals:
  "asIntervals [\<lparr>ContainerID = 0, HostID = 1, Size = n\<rparr>,
             \<lparr>ContainerID = x, HostID = 0, Size = 1\<rparr>] =
    [({0 ..< unat n}, {1 ..< 1 + unat n}),
     ({unat x ..< unat x + 1}, {0 ..< 1})]"
  by (simp add: asIntervals_def containerRange_def hostRange_def)


lemma covered_three:
  assumes "(x::u32) < n"
  shows "covered [\<lparr>ContainerID = 0, HostID = 1, Size = x\<rparr>,
             \<lparr>ContainerID = x, HostID = 0, Size = 1\<rparr>,
             \<lparr>ContainerID = x + 1, HostID = x + 1, Size = n - x\<rparr>] = {0 ..< unat n + 1}"
proof -
  have "unat x < unat n" using assms by (simp add: word_less_nat_alt)
  then show ?thesis
    using unat_succ_below[OF assms] unat_diff_below[OF assms]
    by (auto simp add: covered_def containerRange_def)
qed

lemma disjoint_three:
  assumes "(x::u32) < n"
  shows "disjointRanges [\<lparr>ContainerID = 0, HostID = 1, Size = x\<rparr>,
             \<lparr>ContainerID = x, HostID = 0, Size = 1\<rparr>,
             \<lparr>ContainerID = x + 1, HostID = x + 1, Size = n - x\<rparr>]"
  using unat_succ_below[OF assms] by (simp add: containerRange_def)

lemma toHost_three:
  assumes "(x::u32) < n"
  shows "toHost [\<lparr>ContainerID = 0, HostID = 1, Size = x\<rparr>,
             \<lparr>ContainerID = x, HostID = 0, Size = 1\<rparr>,
             \<lparr>ContainerID = x + 1, HostID = x + 1, Size = n - x\<rparr>] 0 = Some (if x = 0 then 0 else 1)"
  by (auto simp add: containerRange_def unat_gt_0 unat_eq_0)

lemma covered_two:
  "covered [\<lparr>ContainerID = 0, HostID = 1, Size = n\<rparr>,
             \<lparr>ContainerID = x, HostID = 0, Size = 1\<rparr>] = {0 ..< unat n} \<union> {unat x}"
  by (auto simp add: covered_def containerRange_def)

lemma disjoint_two:
  assumes "\<not> (x::u32) < n"
  shows "disjointRanges [\<lparr>ContainerID = 0, HostID = 1, Size = n\<rparr>,
             \<lparr>ContainerID = x, HostID = 0, Size = 1\<rparr>]"
  using assms by (simp add: containerRange_def word_less_nat_alt)

lemma toHost_two:
  assumes "65536 \<le> (n::u32)"
  shows "toHost [\<lparr>ContainerID = 0, HostID = 1, Size = n\<rparr>,
             \<lparr>ContainerID = x, HostID = 0, Size = 1\<rparr>] 0 = Some 1"
proof -
  have "unat (65536::u32) \<le> unat n" using assms by (simp only: word_le_nat_alt)
  then have "0 < unat n" by simp
  then show ?thesis by (simp add: containerRange_def)
qed

lemma reverse_map_props:
  fixes x n :: u32
  assumes big: "65536 \<le> n"
    and ms: "ms = (if x < n then
            [\<lparr>ContainerID = 0, HostID = 1, Size = x\<rparr>,
             \<lparr>ContainerID = x, HostID = 0, Size = 1\<rparr>,
             \<lparr>ContainerID = x + 1, HostID = x + 1, Size = n - x\<rparr>]
          else
            [\<lparr>ContainerID = 0, HostID = 1, Size = n\<rparr>,
             \<lparr>ContainerID = x, HostID = 0, Size = 1\<rparr>])"
  shows "disjointRanges ms \<and> 0 \<in> covered ms
       \<and> covered ms = (if x < n then {0 ..< unat n + 1} else {0 ..< unat n} \<union> {unat x})
       \<and> toHost ms 0 = Some (if x = 0 then 0 else 1)"
proof -
  have "unat (65536::u32) \<le> unat n" using big by (simp only: word_le_nat_alt)
  then have pos: "0 < unat n" by simp
  show ?thesis
  proof (cases "x < n")
    case True
    then have eq: "ms = [\<lparr>ContainerID = 0, HostID = 1, Size = x\<rparr>,
             \<lparr>ContainerID = x, HostID = 0, Size = 1\<rparr>,
             \<lparr>ContainerID = x + 1, HostID = x + 1, Size = n - x\<rparr>]"
      using ms by simp
    have "covered ms = {0 ..< unat n + 1}"
      unfolding eq by (rule covered_three[OF True])
    moreover from this have "0 \<in> covered ms" by simp
    moreover have "disjointRanges ms" unfolding eq by (rule disjoint_three[OF True])
    moreover have "toHost ms 0 = Some (if x = 0 then 0 else 1)"
      unfolding eq by (rule toHost_three[OF True])
    ultimately show ?thesis using True by simp
  next
    case False
    then have eq: "ms = [\<lparr>ContainerID = 0, HostID = 1, Size = n\<rparr>,
             \<lparr>ContainerID = x, HostID = 0, Size = 1\<rparr>]"
      using ms by simp
    have "x \<noteq> 0" using False pos by (auto simp: word_less_nat_alt)
    have "covered ms = {0 ..< unat n} \<union> {unat x}"
      unfolding eq by (rule covered_two)
    moreover from this pos have "0 \<in> covered ms" by simp
    moreover have "disjointRanges ms" unfolding eq by (rule disjoint_two[OF False])
    moreover have "toHost ms 0 = Some (if x = 0 then 0 else 1)"
      unfolding eq using toHost_two[OF big, of x] \<open>x \<noteq> 0\<close> by simp
    ultimately show ?thesis using False by simp
  qed
qed

lemma reverse_map_intervals:
  fixes x n :: u32
  shows "asIntervals (if x < n then
            [\<lparr>ContainerID = 0, HostID = 1, Size = x\<rparr>,
             \<lparr>ContainerID = x, HostID = 0, Size = 1\<rparr>,
             \<lparr>ContainerID = x + 1, HostID = x + 1, Size = n - x\<rparr>]
          else
            [\<lparr>ContainerID = 0, HostID = 1, Size = n\<rparr>,
             \<lparr>ContainerID = x, HostID = 0, Size = 1\<rparr>]) =
         (if x < n then
            [({0 ..< unat x}, {1 ..< 1 + unat x}),
             ({unat x ..< unat x + 1}, {0 ..< 1}),
             ({unat x + 1 ..< unat n + 1}, {unat x + 1 ..< unat n + 1})]
          else
            [({0 ..< unat n}, {1 ..< 1 + unat n}),
             ({unat x ..< unat x + 1}, {0 ..< 1})])"
proof (cases "x < n")
  case True
  then show ?thesis using three_intervals[OF True] by simp
next
  case False
  then show ?thesis using two_intervals[of n x] by simp
qed

text \<open>
  Claim C1 (as amended). With both subordinate ranges of size at least 65536, the call
  returns a uid and a gid mapping. The container-side ranges of the uid mapping are
  pairwise disjoint and include container id 0. Their union is \<open>[0, rangeSize + 1)\<close>
  when \<open>uid < rangeSize\<close>, and \<open>[0, rangeSize)\<close> together with the single id
  \<open>uid\<close> otherwise. Container id 0 decodes to host id 1, except for \<open>uid = 0\<close>, where
  it decodes to host id 0. The same holds for the gid mapping with \<open>gid\<close> and the
  subordinate gid range.
\<close>

theorem reverse_maps_coverage:
  assumes "GetIDRange fr (SubUIDFile fr) uid = Inr ru"
    and "GetIDRange fr (SubGIDFile fr) uid = Inr rg"
    and "65536 \<le> Size ru" and "65536 \<le> Size rg"
  shows "\<exists>um gm. getReverseUserMaps fr uid gid = Inr (um, gm)
     \<and> disjointRanges um \<and> 0 \<in> covered um
     \<and> covered um = (if uid < Size ru then {0 ..< unat (Size ru) + 1}
                      else {0 ..< unat (Size ru)} \<union> {unat uid})
     \<and> toHost um 0 = Some (if uid = 0 then 0 else 1)
     \<and> disjointRanges gm \<and> 0 \<in> covered gm
     \<and> covered gm = (if gid < Size rg then {0 ..< unat (Size rg) + 1}
                      else {0 ..< unat (Size rg)} \<union> {unat gid})
     \<and> toHost gm 0 = Some (if gid = 0 then 0 else 1)"
proof -
  let ?um = "if uid < Size ru then
            [\<lparr>ContainerID = 0, HostID = 1, Size = uid\<rparr>,
             \<lparr>ContainerID = uid, HostID = 0, Size = 1\<rparr>,
             \<lparr>ContainerID = uid + 1, HostID = uid + 1, Size = Size ru - uid\<rparr>]
          else
            [\<lparr>ContainerID = 0, HostID = 1, Size = Size ru\<rparr>,
             \<lparr>ContainerID = uid, HostID = 0, Size = 1\<rparr>]"
  let ?gm = "if gid < Size rg then
            [\<lparr>ContainerID = 0, HostID = 1, Size = gid\<rparr>,
             \<lparr>ContainerID = gid, HostID = 0, Size = 1\<rparr>,
             \<lparr>ContainerID = gid + 1, HostID = gid + 1, Size = Size rg - gid\<rparr>]
          else
            [\<lparr>ContainerID = 0, HostID = 1, Size = Size rg\<rparr>,
             \<lparr>ContainerID = gid, HostID = 0, Size = 1\<rparr>]"
  have "getReverseUserMaps fr uid gid = Inr (?um, ?gm)"
    by (rule getReverseUserMaps_ok[OF assms])
  moreover note reverse_map_props[OF assms(3) refl, of uid]
    reverse_map_props[OF assms(4) refl, of gid]
  ultimately show ?thesis by blast
qed

theorem reverse_maps_coverage_witness:
  "GetIDRange (registry 65536 65536) (SubUIDFile (registry 65536 65536)) 1001
     = Inr \<lparr>ContainerID = 1, HostID = 100000, Size = 65536\<rparr>
   \<and> GetIDRange (registry 65536 65536) (SubGIDFile (registry 65536 65536)) 1001
     = Inr \<lparr>ContainerID = 1, HostID = 100000, Size = 65536\<rparr>
   \<and> (\<exists>um gm. getReverseUserMaps (registry 65536 65536) 1001 70000 = Inr (um, gm)
        \<and> disjointRanges um \<and> 0 \<in> covered um \<and> covered um = {0 ..< 65537}
        \<and> toHost um 0 = Some 1
        \<and> disjointRanges gm \<and> 0 \<in> covered gm \<and> covered gm = {0 ..< 65536} \<union> {70000}
        \<and> toHost gm 0 = Some 1)"
proof -
  have u: "GetIDRange (registry 65536 65536) (SubUIDFile (registry 65536 65536)) 1001
     = Inr \<lparr>ContainerID = 1, HostID = 100000, Size = 65536\<rparr>"
    by (simp add: registry_def)
  have g: "GetIDRange (registry 65536 65536) (SubGIDFile (registry 65536 65536)) 1001
     = Inr \<lparr>ContainerID = 1, HostID = 100000, Size = 65536\<rparr>"
    by (simp add: registry_def)
  show ?thesis
    using reverse_maps_coverage[OF u g, of 70000] u g by simp
qed

text \<open>
  Claim C1 as stated fails: for host uid 1001 and a subordinate range of size 65536 the
  union of the container-side ranges is not \<open>[0, 65536)\<close> (it also holds 65536).
\<close>

theorem reverse_maps_coverage_counterexample:
  "covered (fst (projr (getReverseUserMaps (registry 65536 65536) 1001 1001))) \<noteq> {0 ..< 65536}"
proof -
  have "getReverseUserMaps (registry 65536 65536) 1001 1001 =
     Inr ([\<lparr>ContainerID = 0, HostID = 1, Size = 1001\<rparr>,
           \<lparr>ContainerID = 1001, HostID = 0, Size = 1\<rparr>,
           \<lparr>ContainerID = 1002, HostID = 1002, Size = 64535\<rparr>],
          [\<lparr>ContainerID = 0, HostID = 1, Size = 1001\<rparr>,
           \<lparr>ContainerID = 1001, HostID = 0, Size = 1\<rparr>,
           \<lparr>ContainerID = 1002, HostID = 1002, Size = 64535\<rparr>])"
    by (simp add: getReverseUserMaps_def registry_def)
  then have "65536 \<in> covered (fst (projr (getReverseUserMaps (registry 65536 65536) 1001 1001)))"
    by (simp add: covered_def containerRange_def)
  then show ?thesis by auto
qed

text \<open>
  Claim C2 (as amended). With both subordinate ranges of size at least 65536: if
  \<open>id < rangeSize\<close> the mapping is exactly three ranges, container \<open>[0, id)\<close> from
  host \<open>[1, 1+id)\<close>, container \<open>[id, id+1)\<close> from host \<open>[0, 1)\<close>, and container
  \<open>[id+1, rangeSize+1)\<close> from host \<open>[id+1, rangeSize+1)\<close>; otherwise it is
  exactly two ranges, container \<open>[0, rangeSize)\<close> from host \<open>[1, 1+rangeSize)\<close> and
  container \<open>[id, id+1)\<close> from host \<open>[0, 1)\<close>. This holds for the uid mapping and
  for the gid mapping.
\<close>

theorem reverse_maps_ranges:
  assumes "GetIDRange fr (SubUIDFile fr) uid = Inr ru"
    and "GetIDRange fr (SubGIDFile fr) uid = Inr rg"
    and "65536 \<le> Size ru" and "65536 \<le> Size rg"
  shows "\<exists>um gm. getReverseUserMaps fr uid gid = Inr (um, gm)
     \<and> asIntervals um =
         (if uid < Size ru then
            [({0 ..< unat uid}, {1 ..< 1 + unat uid}),
             ({unat uid ..< unat uid + 1}, {0 ..< 1}),
             ({unat uid + 1 ..< unat (Size ru) + 1}, {unat uid + 1 ..< unat (Size ru) + 1})]
          else
            [({0 ..< unat (Size ru)}, {1 ..< 1 + unat (Size ru)}),
             ({unat uid ..< unat uid + 1}, {0 ..< 1})])
     \<and> asIntervals gm =
         (if gid < Size rg then
            [({0 ..< unat gid}, {1 ..< 1 + unat gid}),
             ({unat gid ..< unat gid + 1}, {0 ..< 1}),
             ({unat gid + 1 ..< unat (Size rg) + 1}, {unat gid + 1 ..< unat (Size rg) + 1})]
          else
            [({0 ..< unat (Size rg)}, {1 ..< 1 + unat (Size rg)}),
             ({unat gid ..< unat gid + 1}, {0 ..< 1})])"
proof -
  let ?um = "if uid < Size ru then
            [\<lparr>ContainerID = 0, HostID = 1, Size = uid\<rparr>,
             \<lparr>ContainerID = uid, HostID = 0, Size = 1\<rparr>,
             \<lparr>ContainerID = uid + 1, HostID = uid + 1, Size = Size ru - uid\<rparr>]
          else
            [\<lparr>ContainerID = 0, HostID = 1, Size = Size ru\<rparr>,
             \<lparr>ContainerID = uid, HostID = 0, Size = 1\<rparr>]"
  let ?gm = "if gid < Size rg then
            [\<lparr>ContainerID = 0, HostID = 1, Size = gid\<rparr>,
             \<lparr>ContainerID = gid, HostID = 0, Size = 1\<rparr>,
             \<lparr>ContainerID = gid + 1, HostID = gid + 1, Size = Size rg - gid\<rparr>]
          else
            [\<lparr>ContainerID = 0, HostID = 1, Size = Size rg\<rparr>,
             \<lparr>ContainerID = gid, HostID = 0, Size = 1\<rparr>]"
  have "getReverseUserMaps fr uid gid = Inr (?um, ?gm)"
    by (rule getReverseUserMaps_ok[OF assms])
  moreover note reverse_map_intervals[of uid "Size ru"] reverse_map_intervals[of gid "Size rg"]
  ultimately show ?thesis by blast
qed

theorem reverse_maps_ranges_witness:
  "GetIDRange (registry 65536 65536) (SubUIDFile (registry 65536 65536)) 1001
     = Inr \<lparr>ContainerID = 1, HostID = 100000, Size = 65536\<rparr>
   \<and> GetIDRange (registry 65536 65536) (SubGIDFile (registry 65536 65536)) 1001
     = Inr \<lparr>ContainerID = 1, HostID = 100000, Size = 65536\<rparr>
   \<and> (\<exists>um gm. getReverseUserMaps (registry 65536 65536) 1001 70000 = Inr (um, gm)
        \<and> asIntervals um =
            [({0 ..< 1001}, {1 ..< 1002}), ({1001 ..< 1002}, {0 ..< 1}),
             ({1002 ..< 65537}, {1002 ..< 65537})]
        \<and> asIntervals gm =
            [({0 ..< 65536}, {1 ..< 65537}), ({70000 ..< 70001}, {0 ..< 1})])"
proof -
  have u: "GetIDRange (registry 65536 65536) (SubUIDFile (registry 65536 65536)) 1001
     = Inr \<lparr>ContainerID = 1, HostID = 100000, Size = 65536\<rparr>"
    by (simp add: registry_def)
  have g: "GetIDRange (registry 65536 65536) (SubGIDFile (registry 65536 65536)) 1001
     = Inr \<lparr>ContainerID = 1, HostID = 100000, Size = 65536\<rparr>"
    by (simp add: registry_def)
  show ?thesis
    using reverse_maps_ranges[OF u g, of 70000] u g by simp
qed

text \<open>
  Claim C2 as stated fails: for host uid 1001 and a subordinate range of size 65536 the
  third range is not container \<open>[1002, 65536)\<close> from host \<open>[1002, 65536)\<close>.
\<close>

theorem reverse_maps_ranges_counterexample:
  "asIntervals (fst (projr (getReverseUserMaps (registry 65536 65536) 1001 1001))) \<noteq>
     [({0 ..< 1001}, {1 ..< 1002}), ({1001 ..< 1002}, {0 ..< 1}),
      ({1002 ..< 65536}, {1002 ..< 65536})]"
proof -
  have "getReverseUserMaps (registry 65536 65536) 1001 1001 =
     Inr ([\<lparr>ContainerID = 0, HostID = 1, Size = 1001\<rparr>,
           \<lparr>ContainerID = 1001, HostID = 0, Size = 1\<rparr>,
           \<lparr>ContainerID = 1002, HostID = 1002, Size = 64535\<rparr>],
          [\<lparr>ContainerID = 0, HostID = 1, Size = 1001\<rparr>,
           \<lparr>ContainerID = 1001, HostID = 0, Size = 1\<rparr>,
           \<lparr>ContainerID = 1002, HostID = 1002, Size = 64535\<rparr>])"
    by (simp add: getReverseUserMaps_def registry_def)
  moreover have "{1002 ..< 65537} \<noteq> {1002 ..< (65536::nat)}"
  proof
    assume "{1002 ..< 65537} = {1002 ..< (65536::nat)}"
    moreover have "(65536::nat) \<in> {1002 ..< 65537}" by simp
    ultimately have "(65536::nat) \<in> {1002 ..< 65536}" by (simp only:)
    then show False by simp
  qed
  ultimately show ?thesis
    by (simp add: asIntervals_def containerRange_def hostRange_def)
qed

text \<open>
  Claim C3. When the subordinate uid range has size below 65536, or the subordinate gid
  range (looked up once the uid range has passed) has size below 65536, the call fails
  with the range-too-small error that carries the offending size; the result is the
  error alone, no mapping is built.
\<close>

theorem range_too_small:
  assumes "GetIDRange fr (SubUIDFile fr) uid = Inr ru"
    and "Size ru < 65536 \<or> (GetIDRange fr (SubGIDFile fr) uid = Inr rg \<and> Size rg < 65536)"
  shows "getReverseUserMaps fr uid gid =
           Inl (RangeTooSmall (if Size ru < 65536 then Size ru else Size rg))"
  using assms by (auto simp add: getReverseUserMaps_def)

theorem range_too_small_witness:
  "GetIDRange (registry 65536 65535) (SubUIDFile (registry 65536 65535)) 1001
     = Inr \<lparr>ContainerID = 1, HostID = 100000, Size = 65536\<rparr>
   \<and> GetIDRange (registry 65536 65535) (SubGIDFile (registry 65536 65535)) 1001
     = Inr \<lparr>ContainerID = 1, HostID = 100000, Size = 65535\<rparr>
   \<and> (65535::u32) < 65536
   \<and> getReverseUserMaps (registry 65536 65535) 1001 1001 = Inl (RangeTooSmall 65535)"
proof -
  have u: "GetIDRange (registry 65536 65535) (SubUIDFile (registry 65536 65535)) 1001
     = Inr \<lparr>ContainerID = 1, HostID = 100000, Size = 65536\<rparr>"
    by (simp add: registry_def)
  have g: "GetIDRange (registry 65536 65535) (SubGIDFile (registry 65536 65535)) 1001
     = Inr \<lparr>ContainerID = 1, HostID = 100000, Size = 65535\<rparr>"
    by (simp add: registry_def)
  have "Size \<lparr>ContainerID = 1, HostID = 100000, Size = 65536::u32\<rparr> < 65536
      \<or> (GetIDRange (registry 65536 65535) (SubGIDFile (registry 65536 65535)) 1001
            = Inr \<lparr>ContainerID = 1, HostID = 100000, Size = 65535\<rparr>
          \<and> Size \<lparr>ContainerID = 1, HostID = 100000, Size = 65535::u32\<rparr> < 65536)"
    using g by simp
  from range_too_small[OF u this, of 1001] u g show ?thesis by simp
qed

section \<open>Properties of the process spec builder\<close>

text \<open>
  Claim C6. The argument vector starts with the explicit process string as a single
  token when that string is non-empty, and with the image entrypoint otherwise.
  Non-empty trailing arguments are appended. The image cmd is appended exactly when the
  trailing arguments are empty and the process string is empty; it is never combined
  with trailing arguments or with an explicit process.
\<close>

theorem getProcessArgs_resolution:
  "(process \<noteq> '''' \<longrightarrow> args \<noteq> [] \<longrightarrow> getProcessArgs imageSpec process args = process # args)
 \<and> (process \<noteq> '''' \<longrightarrow> args = [] \<longrightarrow> getProcessArgs imageSpec process args = [process])
 \<and> (process = '''' \<longrightarrow> args \<noteq> [] \<longrightarrow>
        getProcessArgs imageSpec process args = Config_Entrypoint imageSpec @ args)
 \<and> (process = '''' \<longrightarrow> args = [] \<longrightarrow>
        getProcessArgs imageSpec process args =
          Config_Entrypoint imageSpec @ Config_Cmd imageSpec)"
  by (simp add: getProcessArgs_def)

theorem getProcessArgs_resolution_witness:
  "getProcessArgs \<lparr>Config_Entrypoint = [], Config_Cmd = [''echo'', ''hi''], Config_Env = []\<rparr>
      ''bash'' [] = [''bash'']
 \<and> getProcessArgs \<lparr>Config_Entrypoint = [''/e''], Config_Cmd = [''a'', ''b''], Config_Env = []\<rparr>
      '''' [] = [''/e'', ''a'', ''b'']
 \<and> getProcessArgs \<lparr>Config_Entrypoint = [''/e''], Config_Cmd = [''a''], Config_Env = []\<rparr>
      '''' [''x''] = [''/e'', ''x'']
 \<and> getProcessArgs \<lparr>Config_Entrypoint = [''/e''], Config_Cmd = [''a''], Config_Env = []\<rparr>
      ''bash'' [''x''] = [''bash'', ''x'']"
  using
    getProcessArgs_resolution[of "''bash''" "[]"
      "\<lparr>Config_Entrypoint = [], Config_Cmd = [''echo'', ''hi''], Config_Env = []\<rparr>"]
    getProcessArgs_resolution[of "''''" "[]"
      "\<lparr>Config_Entrypoint = [''/e''], Config_Cmd = [''a'', ''b''], Config_Env = []\<rparr>"]
    getProcessArgs_resolution[of "''''" "[''x'']"
      "\<lparr>Config_Entrypoint = [''/e''], Config_Cmd = [''a''], Config_Env = []\<rparr>"]
    getProcessArgs_resolution[of "''bash''" "[''x'']"
      "\<lparr>Config_Entrypoint = [''/e''], Config_Cmd = [''a''], Config_Env = []\<rparr>"]
  by simp

section \<open>Properties of the lifecycle driver\<close>

lemma OciDelete_runc_fails:
  assumes "FindBin d ''runc'' = Inr runc"
    and "Run d runc [''--root'', RuncStateDir d, ''delete'', containerID] w = (Some err, w1)"
  shows "OciDelete d containerID w = (Some (Wrapped ''while calling runc delete'' err), w1)"
  using assms by (simp add: OciDelete_def runcArgs_def)

lemma OciDelete_runc_succeeds:
  assumes "FindBin d ''runc'' = Inr runc"
    and "Run d runc [''--root'', RuncStateDir d, ''delete'', containerID] w = (None, w1)"
    and "stateDir d containerID = Inr sd"
    and "EvalSymlinks d (Join d sd (bundleLink d)) w1 = Inr bundle"
    and "Remove d (Join d sd (bundleLink d)) w1 = (None, w2)"
  shows "OciDelete d containerID w = releaseBundle d bundle w2"
  using assms by (simp add: OciDelete_def runcArgs_def)

text \<open>
  Claim C5. With the \<open>runc\<close> binary found, the external runtime is run with the
  arguments \<open>--root\<close>, the fixed runtime state root, \<open>delete\<close> and the container id.
  If that run fails, the call returns the wrapped error and leaves the world as the run
  left it: neither the removal of the bundle link nor the release of the lock is applied.
  If it succeeds, and the state directory and the bundle link resolve and the link is
  removed, the bundle link is resolved in the world the run left, the link is removed from
  that world, and the lock of the resolved bundle is released in the world the removal
  left; the result is that of the release.
\<close>

theorem OciDelete_order:
  assumes "FindBin d ''runc'' = Inr runc"
    and "Run d runc [''--root'', RuncStateDir d, ''delete'', containerID] w = (r, w1)"
  shows "(\<forall>err. r = Some err \<longrightarrow>
            OciDelete d containerID w = (Some (Wrapped ''while calling runc delete'' err), w1))
       \<and> (\<forall>sd bundle w2.
            r = None \<longrightarrow> stateDir d containerID = Inr sd \<longrightarrow>
            EvalSymlinks d (Join d sd (bundleLink d)) w1 = Inr bundle \<longrightarrow>
            Remove d (Join d sd (bundleLink d)) w1 = (None, w2) \<longrightarrow>
            OciDelete d containerID w = releaseBundle d bundle w2)"
  using assms OciDelete_runc_fails[of d runc containerID w]
    OciDelete_runc_succeeds[of d runc containerID w]
  by blast

theorem OciDelete_order_witness:
  "FindBin (sampleDriver True) ''runc'' = Inr ''/usr/bin/runc''
 \<and> Run (sampleDriver True) ''/usr/bin/runc''
       [''--root'', RuncStateDir (sampleDriver True), ''delete'', ''c1''] sampleWorld
     = (Some (External ''exit status 1''),
        sampleWorld\<lparr>ran := [(''/usr/bin/runc'', [''--root'', ''/run/apptainer-oci'', ''delete'', ''c1''])]\<rparr>)
 \<and> OciDelete (sampleDriver True) ''c1'' sampleWorld
     = (Some (Wrapped ''while calling runc delete'' (External ''exit status 1'')),
        \<lparr>links = [(''/state/c1/bundle'', ''/bundles/c1'')], locks = [''/bundles/c1''],
         ran = [(''/usr/bin/runc'', [''--root'', ''/run/apptainer-oci'', ''delete'', ''c1''])]\<rparr>)
 \<and> FindBin (sampleDriver False) ''runc'' = Inr ''/usr/bin/runc''
 \<and> Run (sampleDriver False) ''/usr/bin/runc''
       [''--root'', RuncStateDir (sampleDriver False), ''delete'', ''c1''] sampleWorld
     = (None,
        sampleWorld\<lparr>ran := [(''/usr/bin/runc'', [''--root'', ''/run/apptainer-oci'', ''delete'', ''c1''])]\<rparr>)
 \<and> OciDelete (sampleDriver False) ''c1'' sampleWorld
     = (None,
        \<lparr>links = [], locks = [],
         ran = [(''/usr/bin/runc'', [''--root'', ''/run/apptainer-oci'', ''delete'', ''c1''])]\<rparr>)"
proof -
  let ?w1 = "sampleWorld\<lparr>ran := [(''/usr/bin/runc'', [''--root'', ''/run/apptainer-oci'', ''delete'', ''c1''])]\<rparr>"
  have f1: "FindBin (sampleDriver True) ''runc'' = Inr ''/usr/bin/runc''"
    by (simp add: sampleDriver_def)
  have r1: "Run (sampleDriver True) ''/usr/bin/runc''
       [''--root'', RuncStateDir (sampleDriver True), ''delete'', ''c1''] sampleWorld
     = (Some (External ''exit status 1''), ?w1)"
    by (simp add: sampleDriver_def sampleWorld_def)
  have f2: "FindBin (sampleDriver False) ''runc'' = Inr ''/usr/bin/runc''"
    by (simp add: sampleDriver_def)
  have r2: "Run (sampleDriver False) ''/usr/bin/runc''
       [''--root'', RuncStateDir (sampleDriver False), ''delete'', ''c1''] sampleWorld
     = (None, ?w1)"
    by (simp add: sampleDriver_def sampleWorld_def)
  have sd: "stateDir (sampleDriver False) ''c1'' = Inr ''/state/c1''"
    by (simp add: sampleDriver_def)
  have ev: "EvalSymlinks (sampleDriver False)
       (Join (sampleDriver False) ''/state/c1'' (bundleLink (sampleDriver False))) ?w1
     = Inr ''/bundles/c1''"
    by (simp add: sampleDriver_def sampleWorld_def)
  have rm: "Remove (sampleDriver False)
       (Join (sampleDriver False) ''/state/c1'' (bundleLink (sampleDriver False))) ?w1
     = (None, ?w1\<lparr>links := []\<rparr>)"
    by (simp add: sampleDriver_def sampleWorld_def)
  have rel: "releaseBundle (sampleDriver False) ''/bundles/c1'' (?w1\<lparr>links := []\<rparr>)
     = (None, \<lparr>links = [], locks = [],
         ran = [(''/usr/bin/runc'', [''--root'', ''/run/apptainer-oci'', ''delete'', ''c1''])]\<rparr>)"
    by (simp add: sampleDriver_def sampleWorld_def)
  have a: "OciDelete (sampleDriver True) ''c1'' sampleWorld
     = (Some (Wrapped ''while calling runc delete'' (External ''exit status 1'')), ?w1)"
    using OciDelete_order[OF f1 r1] by blast
  have b: "OciDelete (sampleDriver False) ''c1'' sampleWorld
     = releaseBundle (sampleDriver False) ''/bundles/c1'' (?w1\<lparr>links := []\<rparr>)"
    using OciDelete_order[OF f2 r2] sd ev rm by blast
  show ?thesis
    using f1 r1 f2 r2 a b rel by (simp add: sampleWorld_def)
qed

section \<open>Properties of the CDI device injector\<close>

lemma resolveDevices_unknown:
  "\<exists>n \<in> set names. cdi n = None \<Longrightarrow>
     \<exists>n \<in> set names. cdi n = None \<and> resolveDevices cdi names = Inl (DeviceNotFound n)"
proof (induction names)
  case Nil
  then show ?case by simp
next
  case (Cons a names)
  show ?case
  proof (cases "cdi a")
    case None
    then show ?thesis by simp
  next
    case (Some e)
    then have "\<exists>n \<in> set names. cdi n = None" using Cons.prems by auto
    from Cons.IH[OF this] show ?thesis using Some by auto
  qed
qed

lemma resolveDevices_known:
  "\<forall>n \<in> set names. cdi n \<noteq> None \<Longrightarrow>
     resolveDevices cdi names = Inr (map (\<lambda>n. the (cdi n)) names)"
  by (induction names) auto

text \<open>
  Claim C4. A list with at least one name that does not resolve makes \<open>addCDIDevices\<close>
  return an error (the device-not-found error of such a name) and no spec, whatever the
  other names are; a list of names that all resolve returns a spec and no error.
\<close>

theorem addCDIDevices_all_or_nothing:
  "((\<exists>n \<in> set names. cdi n = None) \<longrightarrow>
      (\<exists>n \<in> set names. cdi n = None \<and> addCDIDevices cdi spec names = Inl (DeviceNotFound n)))
 \<and> ((\<forall>n \<in> set names. cdi n \<noteq> None) \<longrightarrow>
      (\<exists>spec'. addCDIDevices cdi spec names = Inr spec'))"
proof (intro conjI impI)
  assume "\<exists>n \<in> set names. cdi n = None"
  from resolveDevices_unknown[OF this]
  show "\<exists>n \<in> set names. cdi n = None \<and> addCDIDevices cdi spec names = Inl (DeviceNotFound n)"
    by (auto simp: addCDIDevices_def)
next
  assume "\<forall>n \<in> set names. cdi n \<noteq> None"
  from resolveDevices_known[OF this]
  show "\<exists>spec'. addCDIDevices cdi spec names = Inr spec'"
    by (simp add: addCDIDevices_def)
qed

theorem addCDIDevices_all_or_nothing_witness:
  "testCDI ''apptainertesting.sylabs.io/device=noSuchDevice'' = None
 \<and> addCDIDevices testCDI minimalSpec
       [''apptainertesting.sylabs.io/device=tmpmountDevice17'',
        ''apptainertesting.sylabs.io/device=noSuchDevice'',
        ''apptainertesting.sylabs.io/device=tmpmountDevice1'',
        ''apptainertesting.sylabs.io/device=kmsgDevice'']
     = Inl (DeviceNotFound ''apptainertesting.sylabs.io/device=noSuchDevice'')
 \<and> testCDI ''apptainertesting.sylabs.io/device=tmpmountDevice17'' = Some tmpmountDevice17
 \<and> testCDI ''apptainertesting.sylabs.io/device=kmsgDevice'' = Some kmsgDevice
 \<and> (\<exists>spec'. addCDIDevices testCDI minimalSpec
       [''apptainertesting.sylabs.io/device=tmpmountDevice17'',
        ''apptainertesting.sylabs.io/device=kmsgDevice''] = Inr spec')"
proof -
  let ?bad = "[''apptainertesting.sylabs.io/device=tmpmountDevice17'',
        ''apptainertesting.sylabs.io/device=noSuchDevice'',
        ''apptainertesting.sylabs.io/device=tmpmountDevice1'',
        ''apptainertesting.sylabs.io/device=kmsgDevice'']"
  let ?good = "[''apptainertesting.sylabs.io/device=tmpmountDevice17'',
                ''apptainertesting.sylabs.io/device=kmsgDevice'']"
  have none: "testCDI ''apptainertesting.sylabs.io/device=noSuchDevice'' = None"
    by (simp add: testCDI_def)
  have k17: "testCDI ''apptainertesting.sylabs.io/device=tmpmountDevice17'' = Some tmpmountDevice17"
    by (simp add: testCDI_def)
  have k1: "testCDI ''apptainertesting.sylabs.io/device=tmpmountDevice1'' = Some tmpmountDevice1"
    by (simp add: testCDI_def)
  have kk: "testCDI ''apptainertesting.sylabs.io/device=kmsgDevice'' = Some kmsgDevice"
    by (simp add: testCDI_def)
  have bad: "\<exists>n \<in> set ?bad. testCDI n = None" using none by simp
  have good: "\<forall>n \<in> set ?good. testCDI n \<noteq> None" using k17 kk by simp
  from addCDIDevices_all_or_nothing[of ?bad testCDI minimalSpec] bad
  obtain n where n: "n \<in> set ?bad" "testCDI n = None"
    "addCDIDevices testCDI minimalSpec ?bad = Inl (DeviceNotFound n)"
    by blast
  from n(1,2) k17 k1 kk have "n = ''apptainertesting.sylabs.io/device=noSuchDevice''"
    by auto
  with n(3) have "addCDIDevices testCDI minimalSpec ?bad
     = Inl (DeviceNotFound ''apptainertesting.sylabs.io/device=noSuchDevice'')"
    by simp
  moreover from addCDIDevices_all_or_nothing[of ?good testCDI minimalSpec] good
  have "\<exists>spec'. addCDIDevices testCDI minimalSpec ?good = Inr spec'" by blast
  ultimately show ?thesis using none k17 kk by blast
qed

text \<open>
  Claim C9. For a list of names that all resolve, the mounts of the resulting spec are
  sorted by destination, and they are, as a multiset, the mounts the spec had together
  with all the mounts of the devices named: a mount is never merged with or dropped for
  another of the same destination. The result is a function of the specification
  directories, the input spec and the names alone.
\<close>

theorem addCDIDevices_mounts_sorted:
  assumes "\<forall>n \<in> set names. cdi n \<noteq> None"
  shows "\<exists>spec'. addCDIDevices cdi spec names = Inr spec'
     \<and> sorted (map Destination (Mounts spec'))
     \<and> mset (Mounts spec') =
         mset (Mounts spec) + mset (concat (map (\<lambda>n. edMounts (the (cdi n))) names))"
  using resolveDevices_known[OF assms]
  by (simp add: addCDIDevices_def comp_def)

theorem addCDIDevices_mounts_sorted_witness:
  "testCDI ''apptainertesting.sylabs.io/device=tmpmountDevice17'' = Some tmpmountDevice17
 \<and> testCDI ''apptainertesting.sylabs.io/device=kmsgDevice'' = Some kmsgDevice
 \<and> (\<exists>spec'. addCDIDevices testCDI minimalSpec
        [''apptainertesting.sylabs.io/device=tmpmountDevice17'',
         ''apptainertesting.sylabs.io/device=kmsgDevice'',
         ''apptainertesting.sylabs.io/device=tmpmountDevice17''] = Inr spec'
      \<and> sorted (map Destination (Mounts spec'))
      \<and> mset (Mounts spec') =
           {#\<lparr>Source = ''/tmp'', Destination = ''/tmpmount17'', Type = '''', Options = [''r'']\<rparr>,
             \<lparr>Source = ''/tmp'', Destination = ''/tmpmountforkmsg'', Type = '''', Options = [''rw'']\<rparr>,
             \<lparr>Source = ''/tmp'', Destination = ''/tmpmount17'', Type = '''', Options = [''r'']\<rparr>#})"
proof -
  let ?names = "[''apptainertesting.sylabs.io/device=tmpmountDevice17'',
         ''apptainertesting.sylabs.io/device=kmsgDevice'',
         ''apptainertesting.sylabs.io/device=tmpmountDevice17'']"
  have k17: "testCDI ''apptainertesting.sylabs.io/device=tmpmountDevice17'' = Some tmpmountDevice17"
    by (simp add: testCDI_def)
  have kk: "testCDI ''apptainertesting.sylabs.io/device=kmsgDevice'' = Some kmsgDevice"
    by (simp add: testCDI_def)
  have ok: "\<forall>n \<in> set ?names. testCDI n \<noteq> None" using k17 kk by simp
  from addCDIDevices_mounts_sorted[OF ok, of minimalSpec] show ?thesis
    by (simp add: k17 kk minimalSpec_def tmpmountDevice17_def kmsgDevice_def)
qed

lemma test_ValidMixedDevices:
  "map Destination (Mounts (projr (addCDIDevices testCDI minimalSpec
        [''apptainertesting.sylabs.io/device=tmpmountDevice17'',
         ''apptainertesting.sylabs.io/device=kmsgDevice'',
         ''apptainertesting.sylabs.io/device=tmpmountDevice1''])))
   = [''/tmpmount1'', ''/tmpmount13'', ''/tmpmount17'', ''/tmpmount3'', ''/tmpmountforkmsg'']"
  by code_simp

section \<open>Properties of the environment resolver\<close>

subsection \<open>Entries, writes and lookups\<close>

lemma envKey_entry:
  assumes "CHR ''='' \<notin> set k"
  shows "envKey (k @ ''='' @ v) = k"
proof -
  have "\<And>x. x \<in> set k \<Longrightarrow> x \<noteq> CHR ''=''" using assms by auto
  from takeWhile_append2[of k "\<lambda>c. c \<noteq> CHR ''=''" "''='' @ v", OF this]
  show ?thesis by (simp add: envKey_def)
qed

lemma SetProcessEnv_mem: "(name @ ''='' @ v) \<in> set (SetProcessEnv name v env)"
  by (induction env) auto

lemma SetProcessEnv_keep:
  "e \<in> set env \<Longrightarrow> envKey e \<noteq> name \<Longrightarrow> e \<in> set (SetProcessEnv name v env)"
  by (induction env) auto

lemma lookupEnv_entry:
  "CHR ''='' \<notin> set n \<Longrightarrow>
     lookupEnv ((n @ ''='' @ v) # es) m = (if m = n then Some v else lookupEnv es m)"
  using envKey_entry[of n v] by auto

lemma lookupEnv_SetProcessEnv:
  assumes "CHR ''='' \<notin> set n"
  shows "lookupEnv (SetProcessEnv n v env) m = (if m = n then Some v else lookupEnv env m)"
proof (induction env)
  case Nil
  show ?case using lookupEnv_entry[OF assms, of v "[]" m] by simp
next
  case (Cons e env)
  show ?case
  proof (cases "envKey e = n")
    case True
    then show ?thesis using lookupEnv_entry[OF assms, of v env m] by auto
  next
    case False
    then show ?thesis using Cons.IH by auto
  qed
qed

subsection \<open>The loop over the image's environment\<close>

lemma imageEnvStep_fields:
  "genEnv (imageEnvStep e s) = genEnv s"
  "appendPath (imageEnvStep e s) = appendPath s"
  "prependPath (imageEnvStep e s) = prependPath s"
  by (auto simp: imageEnvStep_def Let_def split: option.splits)

lemma fold_imageEnvStep_fields:
  "genEnv (fold imageEnvStep env s) = genEnv s"
  "appendPath (fold imageEnvStep env s) = appendPath s"
  "prependPath (fold imageEnvStep env s) = prependPath s"
  by (induction env arbitrary: s) (simp_all add: imageEnvStep_fields)

lemma map_of_rev_assignments_Cons:
  "map_of (rev (assignments (e # env))) name =
     (case map_of (rev (assignments env)) name of
        Some v \<Rightarrow> Some v
      | None \<Rightarrow> (case splitN2 e of None \<Rightarrow> None
                 | Some (k, v) \<Rightarrow> if k = name then Some v else None))"
  by (auto simp: assignments_def map_add_def split: option.splits)

lemma imageEnvStep_path:
  "path (imageEnvStep e s) =
     (case splitN2 e of None \<Rightarrow> path s
      | Some (k, v) \<Rightarrow> if k = ''PATH'' then v else path s)"
  by (auto simp: imageEnvStep_def Let_def split: option.splits)

lemma imageEnvStep_ld:
  "ldLibraryPath (imageEnvStep e s) =
     (case splitN2 e of None \<Rightarrow> ldLibraryPath s
      | Some (k, v) \<Rightarrow> if k = ''LD_LIBRARY_PATH'' then v else ldLibraryPath s)"
  by (auto simp: imageEnvStep_def Let_def split: option.splits)

lemma fold_imageEnvStep_path:
  "path (fold imageEnvStep env s) =
     (case map_of (rev (assignments env)) ''PATH'' of None \<Rightarrow> path s | Some v \<Rightarrow> v)"
proof (induction env arbitrary: s)
  case Nil
  show ?case by (simp add: assignments_def)
next
  case (Cons e env)
  have "path (fold imageEnvStep (e # env) s) = path (fold imageEnvStep env (imageEnvStep e s))"
    by simp
  also have "\<dots> = (case map_of (rev (assignments env)) ''PATH'' of
                      None \<Rightarrow> path (imageEnvStep e s) | Some v \<Rightarrow> v)"
    by (rule Cons.IH)
  also have "\<dots> = (case map_of (rev (assignments (e # env))) ''PATH'' of
                      None \<Rightarrow> path s | Some v \<Rightarrow> v)"
    unfolding imageEnvStep_path map_of_rev_assignments_Cons
    by (auto split: option.splits)
  finally show ?case .
qed

lemma fold_imageEnvStep_ld:
  "ldLibraryPath (fold imageEnvStep env s) =
     (case map_of (rev (assignments env)) ''LD_LIBRARY_PATH'' of
        None \<Rightarrow> ldLibraryPath s | Some v \<Rightarrow> v)"
proof (induction env arbitrary: s)
  case Nil
  show ?case by (simp add: assignments_def)
next
  case (Cons e env)
  have "ldLibraryPath (fold imageEnvStep (e # env) s)
          = ldLibraryPath (fold imageEnvStep env (imageEnvStep e s))"
    by simp
  also have "\<dots> = (case map_of (rev (assignments env)) ''LD_LIBRARY_PATH'' of
                      None \<Rightarrow> ldLibraryPath (imageEnvStep e s) | Some v \<Rightarrow> v)"
    by (rule Cons.IH)
  also have "\<dots> = (case map_of (rev (assignments (e # env))) ''LD_LIBRARY_PATH'' of
                      None \<Rightarrow> ldLibraryPath s | Some v \<Rightarrow> v)"
    unfolding imageEnvStep_ld map_of_rev_assignments_Cons
    by (auto split: option.splits)
  finally show ?case .
qed

subsection \<open>The loop over the runtime environment\<close>

lemma fold_runtimeEnvStep_path:
  "distinct (map fst rt) \<Longrightarrow>
   path (fold runtimeEnvStep rt s) = (case map_of rt ''PATH'' of None \<Rightarrow> path s | Some v \<Rightarrow> v)"
proof (induction rt arbitrary: s)
  case Nil
  show ?case by simp
next
  case (Cons kv rt)
  then have d: "distinct (map fst rt)" and nk: "fst kv \<notin> fst ` set rt" by auto
  from nk have "map_of rt (fst kv) = None" by (simp add: map_of_eq_None_iff)
  then show ?case
    using Cons.IH[OF d] by (cases kv) (auto simp: runtimeEnvStep_def Let_def split: option.splits)
qed

lemma fold_runtimeEnvStep_append:
  "distinct (map fst rt) \<Longrightarrow>
   appendPath (fold runtimeEnvStep rt s) =
     (case map_of rt ''APPEND_PATH'' of None \<Rightarrow> appendPath s | Some v \<Rightarrow> v)"
proof (induction rt arbitrary: s)
  case Nil
  show ?case by simp
next
  case (Cons kv rt)
  then have d: "distinct (map fst rt)" and nk: "fst kv \<notin> fst ` set rt" by auto
  from nk have "map_of rt (fst kv) = None" by (simp add: map_of_eq_None_iff)
  then show ?case
    using Cons.IH[OF d] by (cases kv) (auto simp: runtimeEnvStep_def Let_def split: option.splits)
qed

lemma fold_runtimeEnvStep_prepend:
  "distinct (map fst rt) \<Longrightarrow>
   prependPath (fold runtimeEnvStep rt s) =
     (case map_of rt ''PREPEND_PATH'' of None \<Rightarrow> prependPath s | Some v \<Rightarrow> v)"
proof (induction rt arbitrary: s)
  case Nil
  show ?case by simp
next
  case (Cons kv rt)
  then have d: "distinct (map fst rt)" and nk: "fst kv \<notin> fst ` set rt" by auto
  from nk have "map_of rt (fst kv) = None" by (simp add: map_of_eq_None_iff)
  then show ?case
    using Cons.IH[OF d] by (cases kv) (auto simp: runtimeEnvStep_def Let_def split: option.splits)
qed

lemma fold_runtimeEnvStep_ld:
  "distinct (map fst rt) \<Longrightarrow>
   ldLibraryPath (fold runtimeEnvStep rt s) =
     (case map_of rt ''LD_LIBRARY_PATH'' of None \<Rightarrow> ldLibraryPath s | Some v \<Rightarrow> v)"
proof (induction rt arbitrary: s)
  case Nil
  show ?case by simp
next
  case (Cons kv rt)
  then have d: "distinct (map fst rt)" and nk: "fst kv \<notin> fst ` set rt" by auto
  from nk have "map_of rt (fst kv) = None" by (simp add: map_of_eq_None_iff)
  then show ?case
    using Cons.IH[OF d] by (cases kv) (auto simp: runtimeEnvStep_def Let_def split: option.splits)
qed

lemma fold_runtimeEnvStep_lookup_special:
  assumes "\<forall>k \<in> fst ` set rt. CHR ''='' \<notin> set k" and "special m"
  shows "lookupEnv (genEnv (fold runtimeEnvStep rt s)) m = lookupEnv (genEnv s) m"
  using assms(1)
proof (induction rt arbitrary: s)
  case Nil
  show ?case by simp
next
  case (Cons kv rt)
  then have eqfree: "CHR ''='' \<notin> set (fst kv)" and rest: "\<forall>k \<in> fst ` set rt. CHR ''='' \<notin> set k"
    by auto
  have "lookupEnv (genEnv (runtimeEnvStep kv s)) m = lookupEnv (genEnv s) m"
    using assms(2) lookupEnv_SetProcessEnv[OF eqfree, of "snd kv" "genEnv s" m]
    by (auto simp: runtimeEnvStep_def Let_def special_def)
  then show ?case using Cons.IH[OF rest, of "runtimeEnvStep kv s"] by simp
qed

lemma fold_runtimeEnvStep_keep:
  assumes "e \<in> set (genEnv s)" and "envKey e \<notin> fst ` set rt"
  shows "e \<in> set (genEnv (fold runtimeEnvStep rt s))"
  using assms
proof (induction rt arbitrary: s)
  case Nil
  then show ?case by simp
next
  case (Cons kv rt)
  then have "envKey e \<noteq> fst kv" and rest: "envKey e \<notin> fst ` set rt" by auto
  then have "e \<in> set (genEnv (runtimeEnvStep kv s))"
    using Cons.prems(1) by (auto simp: runtimeEnvStep_def Let_def SetProcessEnv_keep)
  from Cons.IH[OF this rest] show ?case by simp
qed

lemma fold_runtimeEnvStep_written:
  assumes "distinct (map fst rt)" and "(k, v) \<in> set rt" and "\<not> special k"
    and "CHR ''='' \<notin> set k"
  shows "(k @ ''='' @ v) \<in> set (genEnv (fold runtimeEnvStep rt s))"
  using assms(1,2)
proof (induction rt arbitrary: s)
  case Nil
  then show ?case by simp
next
  case (Cons kv rt)
  show ?case
  proof (cases "kv = (k, v)")
    case True
    then have "k \<notin> fst ` set rt" using Cons.prems(1) by auto
    then have nk: "envKey (k @ ''='' @ v) \<notin> fst ` set rt"
      using envKey_entry[OF assms(4), of v] by simp
    have "(k @ ''='' @ v) \<in> set (genEnv (runtimeEnvStep kv s))"
      using True assms(3) SetProcessEnv_mem[of k v "genEnv s"]
      by (simp add: runtimeEnvStep_def Let_def special_def)
    from fold_runtimeEnvStep_keep[OF this nk] show ?thesis by simp
  next
    case False
    then have "(k, v) \<in> set rt" and "distinct (map fst rt)" using Cons.prems by auto
    from Cons.IH[OF this(2,1), of "runtimeEnvStep kv s"] show ?thesis by simp
  qed
qed

subsection \<open>The state after both loops\<close>

lemma afterLoops_fields:
  assumes "distinct (map fst rt)"
  shows "path (afterLoops env rt) = sourceValue ''PATH'' env rt"
    and "appendPath (afterLoops env rt) = runtimeValue rt ''APPEND_PATH''"
    and "prependPath (afterLoops env rt) = runtimeValue rt ''PREPEND_PATH''"
    and "ldLibraryPath (afterLoops env rt) = sourceValue ''LD_LIBRARY_PATH'' env rt"
  unfolding afterLoops_def
  by (simp_all add: fold_runtimeEnvStep_path[OF assms] fold_runtimeEnvStep_append[OF assms]
      fold_runtimeEnvStep_prepend[OF assms] fold_runtimeEnvStep_ld[OF assms]
      fold_imageEnvStep_path fold_imageEnvStep_ld fold_imageEnvStep_fields
      sourceValue_def runtimeValue_def lastAssigned_def split: option.splits)

lemma afterLoops_lookup_special:
  assumes "\<forall>k \<in> fst ` set rt. CHR ''='' \<notin> set k" and "special m"
  shows "lookupEnv (genEnv (afterLoops env rt)) m = lookupEnv env m"
  unfolding afterLoops_def
  by (simp add: fold_runtimeEnvStep_lookup_special[OF assms] fold_imageEnvStep_fields)

lemma lookupEnv_getProcessEnv_PATH:
  "lookupEnv (getProcessEnv img rt) ''PATH'' =
     (if computedPath (afterLoops (Config_Env img) rt) \<noteq> ''''
      then Some (computedPath (afterLoops (Config_Env img) rt))
      else lookupEnv (genEnv (afterLoops (Config_Env img) rt)) ''PATH'')"
proof -
  have a: "CHR ''='' \<notin> set ''LD_LIBRARY_PATH''" by simp
  have b: "CHR ''='' \<notin> set ''PATH''" by simp
  show ?thesis
    unfolding getProcessEnv_def Let_def
    by (simp add: lookupEnv_SetProcessEnv[OF a] lookupEnv_SetProcessEnv[OF b])
qed

lemma lookupEnv_getProcessEnv_other:
  assumes "m \<noteq> ''PATH''" and "m \<noteq> ''LD_LIBRARY_PATH''"
  shows "lookupEnv (getProcessEnv img rt) m =
           lookupEnv (genEnv (afterLoops (Config_Env img) rt)) m"
proof -
  have a: "CHR ''='' \<notin> set ''LD_LIBRARY_PATH''" by simp
  have b: "CHR ''='' \<notin> set ''PATH''" by simp
  show ?thesis
    unfolding getProcessEnv_def Let_def
    using assms
    by (simp add: lookupEnv_SetProcessEnv[OF a] lookupEnv_SetProcessEnv[OF b])
qed

lemma lookupEnv_getProcessEnv_LD:
  "lookupEnv (getProcessEnv img rt) ''LD_LIBRARY_PATH'' =
     Some (ensureLibs (ldLibraryPath (afterLoops (Config_Env img) rt)))"
proof -
  have a: "CHR ''='' \<notin> set ''LD_LIBRARY_PATH''" by simp
  show ?thesis
    unfolding getProcessEnv_def Let_def
    by (simp add: lookupEnv_SetProcessEnv[OF a])
qed

text \<open>
  Claim C7 (as amended). Let basePATH be the last \<open>PATH\<close> value seen across the
  sources, and let P be basePATH, preceded by \<open>PREPEND_PATH\<close> and a colon when
  \<open>PREPEND_PATH\<close> is non-empty, and followed by a colon and \<open>APPEND_PATH\<close> when
  \<open>APPEND_PATH\<close> is non-empty (an empty basePATH keeps the separators). When P is
  non-empty the final \<open>PATH\<close> is P; when P is empty \<open>PATH\<close> is not written and stays
  as the image has it. The runtime values of \<open>APPEND_PATH\<close> and \<open>PREPEND_PATH\<close> are
  never written under their own names: these two entries of the result are those of the
  image.
\<close>

theorem final_PATH:
  assumes "distinct (map fst rt)" and "\<forall>k \<in> fst ` set rt. CHR ''='' \<notin> set k"
  shows "lookupEnv (getProcessEnv img rt) ''PATH'' =
     (let basePATH = sourceValue ''PATH'' (Config_Env img) rt;
          app = runtimeValue rt ''APPEND_PATH'';
          pre = runtimeValue rt ''PREPEND_PATH'';
          P = (if pre \<noteq> '''' then pre @ '':'' else '''') @ basePATH
                @ (if app \<noteq> '''' then '':'' @ app else '''')
      in if P \<noteq> '''' then Some P else lookupEnv (Config_Env img) ''PATH'')
   \<and> lookupEnv (getProcessEnv img rt) ''APPEND_PATH'' = lookupEnv (Config_Env img) ''APPEND_PATH''
   \<and> lookupEnv (getProcessEnv img rt) ''PREPEND_PATH'' = lookupEnv (Config_Env img) ''PREPEND_PATH''"
proof -
  have sp: "special ''PATH''" "special ''APPEND_PATH''" "special ''PREPEND_PATH''"
    by (simp_all add: special_def)
  have cp: "computedPath (afterLoops (Config_Env img) rt) =
      (if runtimeValue rt ''PREPEND_PATH'' \<noteq> '''' then runtimeValue rt ''PREPEND_PATH'' @ '':'' else '''')
       @ sourceValue ''PATH'' (Config_Env img) rt
       @ (if runtimeValue rt ''APPEND_PATH'' \<noteq> '''' then '':'' @ runtimeValue rt ''APPEND_PATH'' else '''')"
    by (simp add: computedPath_def Let_def afterLoops_fields[OF assms(1)])
  have p: "lookupEnv (getProcessEnv img rt) ''PATH'' =
     (let basePATH = sourceValue ''PATH'' (Config_Env img) rt;
          app = runtimeValue rt ''APPEND_PATH'';
          pre = runtimeValue rt ''PREPEND_PATH'';
          P = (if pre \<noteq> '''' then pre @ '':'' else '''') @ basePATH
                @ (if app \<noteq> '''' then '':'' @ app else '''')
      in if P \<noteq> '''' then Some P else lookupEnv (Config_Env img) ''PATH'')"
    unfolding lookupEnv_getProcessEnv_PATH cp afterLoops_lookup_special[OF assms(2) sp(1)] Let_def
    by (rule refl)
  have a: "lookupEnv (getProcessEnv img rt) ''APPEND_PATH'' = lookupEnv (Config_Env img) ''APPEND_PATH''"
    using lookupEnv_getProcessEnv_other[of "''APPEND_PATH''" img rt]
      afterLoops_lookup_special[OF assms(2) sp(2), of "Config_Env img"] by simp
  have b: "lookupEnv (getProcessEnv img rt) ''PREPEND_PATH'' = lookupEnv (Config_Env img) ''PREPEND_PATH''"
    using lookupEnv_getProcessEnv_other[of "''PREPEND_PATH''" img rt]
      afterLoops_lookup_special[OF assms(2) sp(3), of "Config_Env img"] by simp
  from p a b show ?thesis by blast
qed

lemma splitN2_PATH_a: "splitN2 ''PATH=/a'' = Some (''PATH'', ''/a'')"
  by (simp add: splitN2_def)

theorem final_PATH_witness:
  "distinct (map fst [(''APPEND_PATH'', ''/b'')])
 \<and> CHR ''='' \<notin> set ''APPEND_PATH'' \<and> CHR ''='' \<notin> set ''PREPEND_PATH''
 \<and> lookupEnv (getProcessEnv \<lparr>Config_Entrypoint = [], Config_Cmd = [], Config_Env = [''PATH=/a'']\<rparr>
       [(''APPEND_PATH'', ''/b'')]) ''PATH'' = Some ''/a:/b''
 \<and> distinct (map fst [(''APPEND_PATH'', ''/b''), (''PREPEND_PATH'', ''/c'')])
 \<and> lookupEnv (getProcessEnv \<lparr>Config_Entrypoint = [], Config_Cmd = [], Config_Env = [''PATH=/a'']\<rparr>
       [(''APPEND_PATH'', ''/b''), (''PREPEND_PATH'', ''/c'')]) ''PATH'' = Some ''/c:/a:/b''
 \<and> lookupEnv (getProcessEnv \<lparr>Config_Entrypoint = [], Config_Cmd = [], Config_Env = [''PATH=/a'']\<rparr>
       [(''APPEND_PATH'', ''/b''), (''PREPEND_PATH'', ''/c'')]) ''APPEND_PATH'' = None"
proof -
  let ?img = "\<lparr>Config_Entrypoint = [], Config_Cmd = [], Config_Env = [''PATH=/a'']\<rparr>"
  have d1: "distinct (map fst [(''APPEND_PATH'', ''/b'')])" by simp
  have e1: "\<forall>k \<in> fst ` set [(''APPEND_PATH'', ''/b'')]. CHR ''='' \<notin> set k" by simp
  have d2: "distinct (map fst [(''APPEND_PATH'', ''/b''), (''PREPEND_PATH'', ''/c'')])" by simp
  have e2: "\<forall>k \<in> fst ` set [(''APPEND_PATH'', ''/b''), (''PREPEND_PATH'', ''/c'')].
              CHR ''='' \<notin> set k" by simp
  have v: "sourceValue ''PATH'' [''PATH=/a''] [(''APPEND_PATH'', ''/b'')] = ''/a''"
      "sourceValue ''PATH'' [''PATH=/a''] [(''APPEND_PATH'', ''/b''), (''PREPEND_PATH'', ''/c'')] = ''/a''"
    by (simp_all add: sourceValue_def lastAssigned_def assignments_def splitN2_PATH_a)
  have l: "lookupEnv [''PATH=/a''] ''APPEND_PATH'' = None"
    by (simp add: envKey_def)
  show ?thesis
    using final_PATH[OF d1 e1, of ?img] final_PATH[OF d2 e2, of ?img] v l
    by (simp add: runtimeValue_def Let_def)
qed

text \<open>
  Claim C7 as stated fails: with no \<open>PATH\<close> in any source and \<open>APPEND_PATH=/b\<close>,
  the final \<open>PATH\<close> keeps the separator of the empty base (it is \<open>:/b\<close>), where
  the claim's formula gives \<open>/b\<close>.
\<close>

theorem final_PATH_counterexample:
  "lookupEnv (getProcessEnv \<lparr>Config_Entrypoint = [], Config_Cmd = [], Config_Env = []\<rparr>
       [(''APPEND_PATH'', ''/b'')]) ''PATH'' \<noteq> Some (specPath [] [] ''/b'')"
proof -
  have "lookupEnv (getProcessEnv \<lparr>Config_Entrypoint = [], Config_Cmd = [], Config_Env = []\<rparr>
       [(''APPEND_PATH'', ''/b'')]) ''PATH'' = Some '':/b''"
    by (simp add: getProcessEnv_def afterLoops_def runtimeEnvStep_def computedPath_def
        envKey_def Let_def)
  moreover have "specPath [] [] ''/b'' = ''/b''"
    by (simp add: specPath_def)
  ultimately show ?thesis by simp
qed

subsection \<open>Occurrences of a substring\<close>

lemma occurrences_short: "length s < length sub \<Longrightarrow> occurrences s sub = 0"
proof (induction s)
  case Nil
  then show ?case by auto
next
  case (Cons c s)
  have "\<not> prefix sub (c # s)"
    using Cons.prems prefix_length_le[of sub "c # s"] by auto
  then show ?case using Cons by simp
qed

lemma occurrences_self: "sub \<noteq> [] \<Longrightarrow> occurrences sub sub = 1"
  by (cases sub) (simp_all add: occurrences_short)

lemma strContains_occurrences: "strContains s sub \<longleftrightarrow> 0 < occurrences s sub"
  by (induction s) auto

lemma strContains_append: "strContains (xs @ sub) sub"
proof (induction xs)
  case Nil
  show ?case by (cases sub) simp_all
next
  case (Cons x xs)
  then show ?case by simp
qed

lemma not_prefix_across:
  assumes "\<not> prefix sub xs" and "c \<notin> set sub"
  shows "\<not> prefix sub (xs @ c # sub)"
proof
  assume "prefix sub (xs @ c # sub)"
  then obtain us where us: "sub = xs @ us" "prefix us (c # sub)"
    using assms(1) by (auto simp: prefix_append)
  show False
  proof (cases us)
    case Nil
    then show ?thesis using us(1) assms(1) by simp
  next
    case (Cons u us')
    then have "u = c" using us(2) by simp
    then show ?thesis using us(1) Cons assms(2) by simp
  qed
qed

lemma occurrences_appended:
  assumes "c \<notin> set sub" and "sub \<noteq> []"
  shows "\<not> strContains xs sub \<Longrightarrow> occurrences (xs @ c # sub) sub = 1"
proof (induction xs)
  case Nil
  have "\<not> prefix sub []" using assms(2) by simp
  from not_prefix_across[OF this assms(1)] have "\<not> prefix sub (c # sub)" by simp
  then show ?case using occurrences_self[OF assms(2)] by simp
next
  case (Cons x xs)
  then have np: "\<not> prefix sub (x # xs)" and nc: "\<not> strContains xs sub" by auto
  from not_prefix_across[OF np assms(1)] have "\<not> prefix sub ((x # xs) @ c # sub)" .
  then show ?case using Cons.IH[OF nc] by simp
qed

subsection \<open>The library directory in \<open>LD_LIBRARY_PATH\<close>\<close>

lemma ensureLibs_present: "strContains ld apptainerLibs \<Longrightarrow> ensureLibs ld = ld"
  by (simp add: ensureLibs_def)

lemma ensureLibs_absent:
  assumes "\<not> strContains ld apptainerLibs"
  shows "ensureLibs ld = TrimPrefix ld '':'' @ (if ld = [] then [] else '':'') @ apptainerLibs"
proof (cases ld)
  case Nil
  then show ?thesis using assms by (simp add: ensureLibs_def TrimPrefix_def)
next
  case (Cons c t)
  then show ?thesis using assms by (simp add: ensureLibs_def TrimPrefix_def)
qed

lemma TrimPrefix_keeps_absent:
  "\<not> strContains ld sub \<Longrightarrow> \<not> strContains (TrimPrefix ld '':'') sub"
  by (cases ld) (auto simp: TrimPrefix_def)

lemma ensureLibs_contains: "strContains (ensureLibs ld) apptainerLibs"
proof (cases "strContains ld apptainerLibs")
  case True
  then show ?thesis by (simp add: ensureLibs_present)
next
  case False
  have "strContains ((TrimPrefix ld '':'' @ (if ld = [] then [] else '':'')) @ apptainerLibs)
          apptainerLibs"
    by (rule strContains_append)
  then show ?thesis using ensureLibs_absent[OF False] by simp
qed

lemma ensureLibs_idem: "ensureLibs (ensureLibs ld) = ensureLibs ld"
  by (rule ensureLibs_present[OF ensureLibs_contains])

lemma ensureLibs_once:
  assumes "occurrences ld apptainerLibs \<le> 1"
  shows "occurrences (ensureLibs ld) apptainerLibs = 1"
proof (cases "strContains ld apptainerLibs")
  case True
  then have "0 < occurrences ld apptainerLibs" by (simp add: strContains_occurrences)
  then show ?thesis using assms ensureLibs_present[OF True] by simp
next
  case False
  have c: "CHR '':'' \<notin> set apptainerLibs" and ne: "apptainerLibs \<noteq> []"
    by (simp_all add: apptainerLibs_def)
  show ?thesis
  proof (cases "ld = []")
    case True
    then show ?thesis
      using ensureLibs_absent[OF False] occurrences_self[OF ne] by (simp add: TrimPrefix_def)
  next
    case ldne: False
    from occurrences_appended[OF c ne TrimPrefix_keeps_absent[OF False]]
    show ?thesis using ensureLibs_absent[OF False] ldne by simp
  qed
qed

subsection \<open>Assignments after a write\<close>

lemma splitN2_envKey: "splitN2 e = Some (k, v) \<Longrightarrow> envKey e = k"
  by (auto simp: splitN2_def envKey_def split: if_splits)

lemma splitN2_entry:
  assumes "CHR ''='' \<notin> set n"
  shows "splitN2 (n @ ''='' @ v) = Some (n, v)"
proof -
  have a: "\<And>x. x \<in> set n \<Longrightarrow> x \<noteq> CHR ''=''" using assms by auto
  have "takeWhile (\<lambda>c. c \<noteq> CHR ''='') (n @ ''='' @ v) = n"
    using takeWhile_append2[of n "\<lambda>c. c \<noteq> CHR ''=''" "''='' @ v", OF a] by simp
  moreover have "dropWhile (\<lambda>c. c \<noteq> CHR ''='') (n @ ''='' @ v) = ''='' @ v"
    using dropWhile_append2[of n "\<lambda>c. c \<noteq> CHR ''=''" "''='' @ v", OF a] by simp
  ultimately show ?thesis by (simp add: splitN2_def)
qed

lemma assigned_other_write:
  assumes "CHR ''='' \<notin> set n" and "n \<noteq> m"
  shows "map_of (rev (assignments (SetProcessEnv n v env))) m = map_of (rev (assignments env)) m"
proof (induction env)
  case Nil
  show ?case
    using splitN2_entry[OF assms(1), of v] assms(2)
    by (simp add: map_of_rev_assignments_Cons) (simp add: assignments_def)
next
  case (Cons e env)
  show ?case
  proof (cases "envKey e = n")
    case True
    have "\<And>k w. splitN2 e = Some (k, w) \<Longrightarrow> k \<noteq> m"
      using splitN2_envKey True assms(2) by blast
    then show ?thesis
      using True splitN2_entry[OF assms(1), of v] assms(2)
      by (auto simp: map_of_rev_assignments_Cons split: option.splits)
  next
    case False
    then show ?thesis using Cons.IH by (simp add: map_of_rev_assignments_Cons)
  qed
qed

lemma assigned_same_write:
  assumes "CHR ''='' \<notin> set m"
  shows "map_of (rev (assignments (SetProcessEnv m v env))) m = Some v
       \<or> map_of (rev (assignments (SetProcessEnv m v env))) m = map_of (rev (assignments env)) m"
proof (induction env)
  case Nil
  show ?case
    using splitN2_entry[OF assms, of v]
    by (simp add: map_of_rev_assignments_Cons) (simp add: assignments_def)
next
  case (Cons e env)
  show ?case
  proof (cases "envKey e = m")
    case True
    then show ?thesis
      using splitN2_entry[OF assms, of v]
      by (auto simp: map_of_rev_assignments_Cons split: option.splits)
  next
    case False
    have "\<And>k w. splitN2 e = Some (k, w) \<Longrightarrow> k \<noteq> m"
      using splitN2_envKey False by blast
    then show ?thesis
      using False Cons.IH
      by (auto simp: map_of_rev_assignments_Cons split: option.splits)
  qed
qed

lemma fold_runtimeEnvStep_assigned:
  assumes "\<forall>k \<in> fst ` set rt. CHR ''='' \<notin> set k" and "special m"
  shows "map_of (rev (assignments (genEnv (fold runtimeEnvStep rt s)))) m
           = map_of (rev (assignments (genEnv s))) m"
  using assms(1)
proof (induction rt arbitrary: s)
  case Nil
  show ?case by simp
next
  case (Cons kv rt)
  then have eqfree: "CHR ''='' \<notin> set (fst kv)" and rest: "\<forall>k \<in> fst ` set rt. CHR ''='' \<notin> set k"
    by auto
  have "map_of (rev (assignments (genEnv (runtimeEnvStep kv s)))) m
          = map_of (rev (assignments (genEnv s))) m"
  proof (cases "special (fst kv)")
    case True
    then show ?thesis by (auto simp: runtimeEnvStep_def Let_def special_def)
  next
    case False
    then have "fst kv \<noteq> m" using assms(2) by auto
    from assigned_other_write[OF eqfree this, of "snd kv" "genEnv s"] False
    show ?thesis by (auto simp: runtimeEnvStep_def Let_def special_def)
  qed
  then show ?case using Cons.IH[OF rest, of "runtimeEnvStep kv s"] by simp
qed

lemma lastAssigned_LD_getProcessEnv:
  assumes "\<forall>k \<in> fst ` set rt. CHR ''='' \<notin> set k"
  shows "lastAssigned ''LD_LIBRARY_PATH'' (getProcessEnv img rt)
           = ensureLibs (ldLibraryPath (afterLoops (Config_Env img) rt))
       \<or> lastAssigned ''LD_LIBRARY_PATH'' (getProcessEnv img rt)
           = lastAssigned ''LD_LIBRARY_PATH'' (Config_Env img)"
proof -
  let ?s = "afterLoops (Config_Env img) rt"
  let ?env1 = "if computedPath ?s \<noteq> [] then SetProcessEnv ''PATH'' (computedPath ?s) (genEnv ?s)
               else genEnv ?s"
  have g: "getProcessEnv img rt = SetProcessEnv ''LD_LIBRARY_PATH'' (ensureLibs (ldLibraryPath ?s)) ?env1"
    by (simp add: getProcessEnv_def Let_def)
  have sp: "special ''LD_LIBRARY_PATH''" by (simp add: special_def)
  have "map_of (rev (assignments (genEnv ?s))) ''LD_LIBRARY_PATH''
          = map_of (rev (assignments (Config_Env img))) ''LD_LIBRARY_PATH''"
    unfolding afterLoops_def
    by (simp add: fold_runtimeEnvStep_assigned[OF assms sp] fold_imageEnvStep_fields)
  moreover have "map_of (rev (assignments ?env1)) ''LD_LIBRARY_PATH''
          = map_of (rev (assignments (genEnv ?s))) ''LD_LIBRARY_PATH''"
    using assigned_other_write[of "''PATH''" "''LD_LIBRARY_PATH''" "computedPath ?s" "genEnv ?s"]
    by simp
  ultimately have e: "map_of (rev (assignments ?env1)) ''LD_LIBRARY_PATH''
          = map_of (rev (assignments (Config_Env img))) ''LD_LIBRARY_PATH''"
    by simp
  from assigned_same_write[of "''LD_LIBRARY_PATH''" "ensureLibs (ldLibraryPath ?s)" ?env1]
  show ?thesis
    unfolding g lastAssigned_def e by auto
qed

text \<open>
  Claim C8 (as amended). With \<open>ld\<close> the last \<open>LD_LIBRARY_PATH\<close> value seen across the
  sources (the empty string when there is none), the final \<open>LD_LIBRARY_PATH\<close> is
  \<open>ensureLibs ld\<close>. It contains the library directory; it contains it exactly once
  whenever \<open>ld\<close> contains it at most once. When \<open>ld\<close> contains the directory the
  value is \<open>ld\<close>, undisturbed; otherwise it is \<open>ld\<close> (less one leading colon, if it
  has one) followed by a colon, unless \<open>ld\<close> is empty, and the directory. Resolving a
  second time, from the environment the first resolution produced, gives the same value.
\<close>

theorem LD_LIBRARY_PATH_resolution:
  assumes "distinct (map fst rt)" and "\<forall>k \<in> fst ` set rt. CHR ''='' \<notin> set k"
  shows "(let ld = sourceValue ''LD_LIBRARY_PATH'' (Config_Env img) rt; r = ensureLibs ld
          in lookupEnv (getProcessEnv img rt) ''LD_LIBRARY_PATH'' = Some r
           \<and> strContains r apptainerLibs
           \<and> (occurrences ld apptainerLibs \<le> 1 \<longrightarrow> occurrences r apptainerLibs = 1)
           \<and> (strContains ld apptainerLibs \<longrightarrow> r = ld)
           \<and> (\<not> strContains ld apptainerLibs \<longrightarrow>
                 r = TrimPrefix ld '':'' @ (if ld = [] then [] else '':'') @ apptainerLibs)
           \<and> ensureLibs r = r
           \<and> lookupEnv (getProcessEnv (img\<lparr>Config_Env := getProcessEnv img rt\<rparr>) rt)
                 ''LD_LIBRARY_PATH'' = Some r)"
proof -
  let ?ld = "sourceValue ''LD_LIBRARY_PATH'' (Config_Env img) rt"
  let ?r = "ensureLibs ?ld"
  let ?img2 = "img\<lparr>Config_Env := getProcessEnv img rt\<rparr>"
  have f: "ldLibraryPath (afterLoops (Config_Env img) rt) = ?ld"
    by (rule afterLoops_fields(4)[OF assms(1)])
  have one: "lookupEnv (getProcessEnv img rt) ''LD_LIBRARY_PATH'' = Some ?r"
    by (simp add: lookupEnv_getProcessEnv_LD f)
  have two: "lookupEnv (getProcessEnv ?img2 rt) ''LD_LIBRARY_PATH''
       = Some (ensureLibs (sourceValue ''LD_LIBRARY_PATH'' (getProcessEnv img rt) rt))"
    using afterLoops_fields(4)[OF assms(1), of "getProcessEnv img rt"]
    by (simp add: lookupEnv_getProcessEnv_LD)
  have "ensureLibs (sourceValue ''LD_LIBRARY_PATH'' (getProcessEnv img rt) rt) = ?r"
  proof (cases "map_of rt ''LD_LIBRARY_PATH''")
    case (Some v)
    then show ?thesis by (simp add: sourceValue_def)
  next
    case None
    then have s1: "sourceValue ''LD_LIBRARY_PATH'' (getProcessEnv img rt) rt
                    = lastAssigned ''LD_LIBRARY_PATH'' (getProcessEnv img rt)"
      and s2: "?ld = lastAssigned ''LD_LIBRARY_PATH'' (Config_Env img)"
      by (simp_all add: sourceValue_def)
    from lastAssigned_LD_getProcessEnv[OF assms(2), of img]
    show ?thesis unfolding s1 f
      using s2 ensureLibs_idem[of ?ld] by auto
  qed
  with two have three: "lookupEnv (getProcessEnv ?img2 rt) ''LD_LIBRARY_PATH'' = Some ?r"
    by simp
  show ?thesis
    unfolding Let_def
    using one three ensureLibs_contains[of ?ld] ensureLibs_once[of ?ld]
      ensureLibs_present[of ?ld] ensureLibs_absent[of ?ld] ensureLibs_idem[of ?ld]
    by blast
qed
lemma ensureLibs_usr_lib: "ensureLibs ''/usr/lib'' = ''/usr/lib:/.singularity.d/libs''"
  by (simp add: ensureLibs_def apptainerLibs_def TrimPrefix_def)

lemma occurrences_usr_lib: "occurrences ''/usr/lib'' apptainerLibs = 0"
  by (simp add: apptainerLibs_def)

theorem LD_LIBRARY_PATH_resolution_witness:
  "distinct (map fst [(''LD_LIBRARY_PATH'', ''/usr/lib'')])
 \<and> CHR ''='' \<notin> set ''LD_LIBRARY_PATH''
 \<and> lookupEnv (getProcessEnv \<lparr>Config_Entrypoint = [], Config_Cmd = [], Config_Env = []\<rparr>
       [(''LD_LIBRARY_PATH'', ''/usr/lib'')]) ''LD_LIBRARY_PATH''
     = Some ''/usr/lib:/.singularity.d/libs''
 \<and> occurrences ''/usr/lib:/.singularity.d/libs'' apptainerLibs = 1
 \<and> lookupEnv (getProcessEnv
       \<lparr>Config_Entrypoint = [], Config_Cmd = [],
        Config_Env = getProcessEnv \<lparr>Config_Entrypoint = [], Config_Cmd = [], Config_Env = []\<rparr>
                       [(''LD_LIBRARY_PATH'', ''/usr/lib'')]\<rparr>
       [(''LD_LIBRARY_PATH'', ''/usr/lib'')]) ''LD_LIBRARY_PATH''
     = Some ''/usr/lib:/.singularity.d/libs''"
proof -
  let ?img = "\<lparr>Config_Entrypoint = [], Config_Cmd = [], Config_Env = []\<rparr>"
  have d: "distinct (map fst [(''LD_LIBRARY_PATH'', ''/usr/lib'')])" by simp
  have e: "\<forall>k \<in> fst ` set [(''LD_LIBRARY_PATH'', ''/usr/lib'')]. CHR ''='' \<notin> set k" by simp
  have v: "sourceValue ''LD_LIBRARY_PATH'' [] [(''LD_LIBRARY_PATH'', ''/usr/lib'')] = ''/usr/lib''"
    by (simp add: sourceValue_def)
  from LD_LIBRARY_PATH_resolution[OF d e, of ?img]
  have a: "lookupEnv (getProcessEnv ?img [(''LD_LIBRARY_PATH'', ''/usr/lib'')]) ''LD_LIBRARY_PATH''
             = Some (ensureLibs ''/usr/lib'')"
    and b: "occurrences ''/usr/lib'' apptainerLibs \<le> 1 \<longrightarrow>
              occurrences (ensureLibs ''/usr/lib'') apptainerLibs = 1"
    and c: "lookupEnv (getProcessEnv
              (?img\<lparr>Config_Env := getProcessEnv ?img [(''LD_LIBRARY_PATH'', ''/usr/lib'')]\<rparr>)
              [(''LD_LIBRARY_PATH'', ''/usr/lib'')]) ''LD_LIBRARY_PATH''
             = Some (ensureLibs ''/usr/lib'')"
    unfolding Let_def by (simp_all only: v Image.simps) blast+
  from b have b': "occurrences (ensureLibs ''/usr/lib'') apptainerLibs = 1"
    by (simp only: occurrences_usr_lib)
  show ?thesis
    using a b' c by (simp add: ensureLibs_usr_lib del: occurrences.simps)
qed

text \<open>
  Claim C8 as stated fails: an input that holds the library directory twice is left
  undisturbed, so the final value holds it twice, not exactly once.
\<close>

theorem LD_LIBRARY_PATH_resolution_counterexample:
  "occurrences
     (the (lookupEnv (getProcessEnv \<lparr>Config_Entrypoint = [], Config_Cmd = [], Config_Env = []\<rparr>
        [(''LD_LIBRARY_PATH'', ''/.singularity.d/libs:/.singularity.d/libs'')])
        ''LD_LIBRARY_PATH''))
     apptainerLibs \<noteq> 1"
  by code_simp

subsection \<open>The default variables\<close>

lemma default_keys_not_special:
  "\<not> special (pfx @ ''CONTAINER'')" "\<not> special (pfx @ ''NAME'')"
proof -
  have "last (pfx @ ''CONTAINER'') = CHR ''R''" "last (pfx @ ''NAME'') = CHR ''E''"
    by simp_all
  moreover have "special k \<Longrightarrow> last k = CHR ''H''" for k
    by (auto simp: special_def)
  ultimately show "\<not> special (pfx @ ''CONTAINER'')" "\<not> special (pfx @ ''NAME'')"
    by fastforce+
qed

lemma getProcessEnv_written:
  assumes "distinct (map fst rt)" and "(k, v) \<in> set rt" and "\<not> special k"
    and "CHR ''='' \<notin> set k"
  shows "(k @ ''='' @ v) \<in> set (getProcessEnv img rt)"
proof -
  let ?s = "afterLoops (Config_Env img) rt"
  let ?e = "k @ ''='' @ v"
  have key: "envKey ?e = k" by (rule envKey_entry[OF assms(4)])
  have np: "envKey ?e \<noteq> ''PATH''" and nl: "envKey ?e \<noteq> ''LD_LIBRARY_PATH''"
    using assms(3) key by (auto simp: special_def)
  have "?e \<in> set (genEnv ?s)"
    unfolding afterLoops_def by (rule fold_runtimeEnvStep_written[OF assms])
  then have "?e \<in> set (if computedPath ?s \<noteq> [] then SetProcessEnv ''PATH'' (computedPath ?s) (genEnv ?s)
                         else genEnv ?s)"
    using SetProcessEnv_keep[OF _ np, of "genEnv ?s" "computedPath ?s"] by simp
  from SetProcessEnv_keep[OF this nl, of "ensureLibs (ldLibraryPath ?s)"]
  show ?thesis by (simp add: getProcessEnv_def Let_def)
qed

lemma getProcess_Inr:
  assumes "getProcess h cfg imgSpec imageRef bundle process args = Inr p"
  shows "\<exists>rtEnv. runtimeEnvironment h cfg imageRef bundle = Inr rtEnv
           \<and> Env p = getProcessEnv imgSpec (mapRange h rtEnv)"
  using assms by (auto simp: getProcess_def split: sum.splits)

lemma runtimeEnvironment_default:
  assumes "runtimeEnvironment h cfg imageRef bundle = Inr rtEnv"
    and "defaultEnv h imageRef bundle k = Some v"
    and "k \<notin> dom (apptainerEnvMap h)"
    and "\<forall>e. cfg_EnvFile cfg \<noteq> [] \<longrightarrow> envFileMap h (cfg_EnvFile cfg) = Inr e \<longrightarrow> k \<notin> dom e"
    and "k \<notin> dom (cfg_Env cfg)"
  shows "rtEnv k = Some v"
proof (cases "cfg_EnvFile cfg = []")
  case True
  then have "rtEnv = (defaultEnv h imageRef bundle ++ apptainerEnvMap h) ++ cfg_Env cfg"
    using assms(1) by (simp add: runtimeEnvironment_def mergeMap_def Let_def)
  then show ?thesis using assms(2,3,5) by (simp add: map_add_Some_iff domIff)
next
  case False
  then obtain e where e: "envFileMap h (cfg_EnvFile cfg) = Inr e"
    and r: "rtEnv = ((defaultEnv h imageRef bundle ++ apptainerEnvMap h) ++ e) ++ cfg_Env cfg"
    using assms(1) by (auto simp: runtimeEnvironment_def mergeMap_def Let_def split: sum.splits)
  from assms(4) False e have "k \<notin> dom e" by blast
  then show ?thesis using r assms(2,3,5) by (simp add: map_add_Some_iff domIff)
qed

text \<open>
  Claim C10. \<open>getProcess\<close> starts the runtime environment from the two default
  variables, the container name variable with the bundle path and the image name
  variable with the image reference, and merges every other runtime source over them.
  So in every process spec that is built, each default variable is in the final
  environment with its default value, unless the prefixed variables of the calling
  environment, the environment file or the explicit overrides define that name (the
  image's own environment does not displace it).
\<close>

theorem default_env_seeded:
  assumes "getProcess h cfg imgSpec imageRef bundle process args = Inr p"
    and "\<forall>m. runtimeEnvironment h cfg imageRef bundle = Inr m \<longrightarrow>
           map_of (mapRange h m) = m \<and> distinct (map fst (mapRange h m))"
    and "CHR ''='' \<notin> set (ApptainerPrefix h)"
  shows "(ApptainerPrefix h @ ''CONTAINER'' \<notin> dom (apptainerEnvMap h) \<longrightarrow>
          (\<forall>e. cfg_EnvFile cfg \<noteq> [] \<longrightarrow> envFileMap h (cfg_EnvFile cfg) = Inr e \<longrightarrow>
               ApptainerPrefix h @ ''CONTAINER'' \<notin> dom e) \<longrightarrow>
          ApptainerPrefix h @ ''CONTAINER'' \<notin> dom (cfg_Env cfg) \<longrightarrow>
          (ApptainerPrefix h @ ''CONTAINER'' @ ''='' @ bundle) \<in> set (Env p))
       \<and> (ApptainerPrefix h @ ''NAME'' \<notin> dom (apptainerEnvMap h) \<longrightarrow>
          (\<forall>e. cfg_EnvFile cfg \<noteq> [] \<longrightarrow> envFileMap h (cfg_EnvFile cfg) = Inr e \<longrightarrow>
               ApptainerPrefix h @ ''NAME'' \<notin> dom e) \<longrightarrow>
          ApptainerPrefix h @ ''NAME'' \<notin> dom (cfg_Env cfg) \<longrightarrow>
          (ApptainerPrefix h @ ''NAME'' @ ''='' @ imageRef) \<in> set (Env p))"
proof -
  from getProcess_Inr[OF assms(1)] obtain rtEnv
    where rt: "runtimeEnvironment h cfg imageRef bundle = Inr rtEnv"
      and env: "Env p = getProcessEnv imgSpec (mapRange h rtEnv)"
    by blast
  from assms(2) rt have m: "map_of (mapRange h rtEnv) = rtEnv"
    and d: "distinct (map fst (mapRange h rtEnv))" by auto
  have written: "(k @ ''='' @ v) \<in> set (Env p)"
    if "rtEnv k = Some v" "\<not> special k" "CHR ''='' \<notin> set k" for k v
  proof -
    from that(1) m have "(k, v) \<in> set (mapRange h rtEnv)" by (metis map_of_SomeD)
    from getProcessEnv_written[OF d this that(2,3)] show ?thesis by (simp add: env)
  qed
  have dc: "defaultEnv h imageRef bundle (ApptainerPrefix h @ ''CONTAINER'') = Some bundle"
    and dn: "defaultEnv h imageRef bundle (ApptainerPrefix h @ ''NAME'') = Some imageRef"
    by (simp_all add: defaultEnv_def)
  have ec: "CHR ''='' \<notin> set (ApptainerPrefix h @ ''CONTAINER'')"
    and en: "CHR ''='' \<notin> set (ApptainerPrefix h @ ''NAME'')"
    using assms(3) by simp_all
  show ?thesis
  proof (intro conjI impI)
    assume a: "ApptainerPrefix h @ ''CONTAINER'' \<notin> dom (apptainerEnvMap h)"
      and b: "\<forall>e. cfg_EnvFile cfg \<noteq> [] \<longrightarrow> envFileMap h (cfg_EnvFile cfg) = Inr e \<longrightarrow>
               ApptainerPrefix h @ ''CONTAINER'' \<notin> dom e"
      and c: "ApptainerPrefix h @ ''CONTAINER'' \<notin> dom (cfg_Env cfg)"
    from written[OF runtimeEnvironment_default[OF rt dc a b c] default_keys_not_special(1) ec]
    show "(ApptainerPrefix h @ ''CONTAINER'' @ ''='' @ bundle) \<in> set (Env p)" by simp
  next
    assume a: "ApptainerPrefix h @ ''NAME'' \<notin> dom (apptainerEnvMap h)"
      and b: "\<forall>e. cfg_EnvFile cfg \<noteq> [] \<longrightarrow> envFileMap h (cfg_EnvFile cfg) = Inr e \<longrightarrow>
               ApptainerPrefix h @ ''NAME'' \<notin> dom e"
      and c: "ApptainerPrefix h @ ''NAME'' \<notin> dom (cfg_Env cfg)"
    from written[OF runtimeEnvironment_default[OF rt dn a b c] default_keys_not_special(2) en]
    show "(ApptainerPrefix h @ ''NAME'' @ ''='' @ imageRef) \<in> set (Env p)" by simp
  qed
qed
lemma sample_apptainerEnvMap: "apptainerEnvMap sampleHost = [''FOO'' \<mapsto> ''1'']"
  by (simp add: apptainerEnvMap_def apptainerEnvStep_def HasPrefix_def splitN2_def
      TrimPrefix_def sampleHost_def)

lemma sample_runtimeEnvironment:
  "runtimeEnvironment sampleHost sampleOptions ''docker://alpine'' ''/tmp/bundle'' =
     Inr (map_of [(''FOO'', ''1''), (''APPTAINER_NAME'', ''docker://alpine''),
                  (''APPTAINER_CONTAINER'', ''/tmp/bundle'')])"
proof -
  have "defaultEnv sampleHost ''docker://alpine'' ''/tmp/bundle'' ++ [''FOO'' \<mapsto> ''1'']
          = map_of [(''FOO'', ''1''), (''APPTAINER_NAME'', ''docker://alpine''),
                    (''APPTAINER_CONTAINER'', ''/tmp/bundle'')]"
    by (rule ext) (simp add: defaultEnv_def sampleHost_def map_add_def)
  then show ?thesis
    by (simp add: runtimeEnvironment_def mergeMap_def Let_def sample_apptainerEnvMap
        sampleOptions_def)
qed

lemma sample_getProcessEnv:
  "getProcessEnv sampleImage
     [(''FOO'', ''1''), (''APPTAINER_NAME'', ''docker://alpine''),
      (''APPTAINER_CONTAINER'', ''/tmp/bundle'')]
   = [''PATH=/usr/bin'', ''APPTAINER_NAME=docker://alpine'', ''FOO=1'',
      ''APPTAINER_CONTAINER=/tmp/bundle'', ''LD_LIBRARY_PATH=/.singularity.d/libs'']"
  by code_simp

lemma sample_getProcess:
  "getProcess sampleHost sampleOptions sampleImage ''docker://alpine'' ''/tmp/bundle'' [] [] =
     Inr \<lparr>Args = [''/bin/sh''], Cwd = ''/home/u'',
          Env = [''PATH=/usr/bin'', ''APPTAINER_NAME=docker://alpine'', ''FOO=1'',
                 ''APPTAINER_CONTAINER=/tmp/bundle'', ''LD_LIBRARY_PATH=/.singularity.d/libs''],
          User = \<lparr>UID = 1001, GID = 1001\<rparr>, Terminal = False\<rparr>"
proof -
  have r: "mapRange sampleHost m = [(''FOO'', ''1''), (''APPTAINER_NAME'', ''docker://alpine''),
      (''APPTAINER_CONTAINER'', ''/tmp/bundle'')]" for m
    by (simp add: sampleHost_def)
  have c: "getProcessCwd sampleHost sampleOptions = Inr ''/home/u''"
    by (simp add: getProcessCwd_def sampleHost_def sampleOptions_def)
  have u: "getProcessUser sampleHost sampleOptions = \<lparr>UID = 1001, GID = 1001\<rparr>"
    by (simp add: getProcessUser_def sampleHost_def sampleOptions_def)
  have t: "getProcessTerminal sampleHost = False"
    by (simp add: getProcessTerminal_def sampleHost_def)
  have a: "getProcessArgs sampleImage [] [] = [''/bin/sh'']"
    by (simp add: getProcessArgs_def sampleImage_def)
  show ?thesis
    unfolding getProcess_def sample_runtimeEnvironment
    by (simp only: r c u t a sample_getProcessEnv sum.case)
qed

theorem default_env_seeded_witness:
  "getProcess sampleHost sampleOptions sampleImage ''docker://alpine'' ''/tmp/bundle'' [] [] =
     Inr \<lparr>Args = [''/bin/sh''], Cwd = ''/home/u'',
          Env = [''PATH=/usr/bin'', ''APPTAINER_NAME=docker://alpine'', ''FOO=1'',
                 ''APPTAINER_CONTAINER=/tmp/bundle'', ''LD_LIBRARY_PATH=/.singularity.d/libs''],
          User = \<lparr>UID = 1001, GID = 1001\<rparr>, Terminal = False\<rparr>
 \<and> CHR ''='' \<notin> set (ApptainerPrefix sampleHost)
 \<and> apptainerEnvMap sampleHost = [''FOO'' \<mapsto> ''1'']
 \<and> cfg_EnvFile sampleOptions = []
 \<and> cfg_Env sampleOptions = Map.empty
 \<and> ''APPTAINER_CONTAINER=/tmp/bundle'' \<in>
       set (Env (projr (getProcess sampleHost sampleOptions sampleImage
                          ''docker://alpine'' ''/tmp/bundle'' [] [])))
 \<and> ''APPTAINER_NAME=docker://alpine'' \<in>
       set (Env (projr (getProcess sampleHost sampleOptions sampleImage
                          ''docker://alpine'' ''/tmp/bundle'' [] [])))"
proof -
  let ?p = "\<lparr>Args = [''/bin/sh''], Cwd = ''/home/u'',
          Env = [''PATH=/usr/bin'', ''APPTAINER_NAME=docker://alpine'', ''FOO=1'',
                 ''APPTAINER_CONTAINER=/tmp/bundle'', ''LD_LIBRARY_PATH=/.singularity.d/libs''],
          User = \<lparr>UID = 1001, GID = 1001\<rparr>, Terminal = False\<rparr>"
  have h2: "\<forall>m. runtimeEnvironment sampleHost sampleOptions ''docker://alpine'' ''/tmp/bundle'' = Inr m
        \<longrightarrow> map_of (mapRange sampleHost m) = m \<and> distinct (map fst (mapRange sampleHost m))"
    unfolding sample_runtimeEnvironment by (auto simp: sampleHost_def)
  have h3: "CHR ''='' \<notin> set (ApptainerPrefix sampleHost)" by (simp add: sampleHost_def)
  have pf: "ApptainerPrefix sampleHost = ''APPTAINER_''" by (simp add: sampleHost_def)
  have f: "cfg_EnvFile sampleOptions = []" and e: "cfg_Env sampleOptions = Map.empty"
    by (simp_all add: sampleOptions_def)
  have nc: "ApptainerPrefix sampleHost @ ''CONTAINER'' \<notin> dom (apptainerEnvMap sampleHost)"
    and nn: "ApptainerPrefix sampleHost @ ''NAME'' \<notin> dom (apptainerEnvMap sampleHost)"
    by (simp_all add: sample_apptainerEnvMap pf)
  from default_env_seeded[OF sample_getProcess h2 h3] nc nn f e
  have "(ApptainerPrefix sampleHost @ ''CONTAINER'' @ ''='' @ ''/tmp/bundle'') \<in> set (Env ?p)"
    and "(ApptainerPrefix sampleHost @ ''NAME'' @ ''='' @ ''docker://alpine'') \<in> set (Env ?p)"
    by simp_all
  then show ?thesis
    using sample_getProcess h3 sample_apptainerEnvMap f e by (simp add: pf)
qed

end
